theory Spec2Isabelle
  imports Main "HOL-Library.Monad_Syntax"
begin

section \<open>The work queue of \<^verbatim>\<open>ut/ut0wqueue.cc\<close>\<close>

text \<open>
  The queue is a mutex, a list of nodes and an event. Every function of the file is
  embedded as a function on the \<^emph>\<open>view of one thread\<close>: the queue, what the other
  threads will do while this thread does not hold the mutex, and the record of the
  primitive calls this thread has made, each with its result. A call that never
  returns (the thread blocks or spins forever) is the value \<open>None\<close>.
\<close>

subsection \<open>Data\<close>

text \<open>A work item is a \<^verbatim>\<open>void*\<close>: an address, the null pointer being address 0.\<close>

type_synonym ptr = nat

definition NULL :: ptr where
  "NULL = 0"

text \<open>
  \<^verbatim>\<open>ib_list_node_t\<close>: only the \<^verbatim>\<open>data\<close> field is read by the queue; the
  \<^verbatim>\<open>prev\<close> and \<^verbatim>\<open>next\<close> links are the position in the list. A pointer to a node
  that may be null is a \<open>ib_list_node_t option\<close>.
\<close>

datatype ib_list_node_t = Node (data: ptr)

type_synonym ib_list_t = "ib_list_node_t list"

text \<open>
  Modelled from the spec: the event (\<^verbatim>\<open>os_event\<close>, declared outside this file) is
  "a level-triggered wait condition with two states, set and clear, plus an internal
  monotonically increasing generation counter".
\<close>

record os_event =
  is_set :: bool
  signal_count :: int

text \<open>\<^verbatim>\<open>ib_wqueue_t\<close>. The field \<open>mutex\<close> is true while the mutex is held.\<close>

record ib_wqueue_t =
  mutex :: bool
  items :: ib_list_t
  event :: os_event

text \<open>
  What another thread can do to the queue while this one does not hold the mutex: the
  primitive operations on the list and on the event, from which every critical section
  of the file is made.
\<close>

datatype other =
    Other_add_last ptr
  | Other_remove_first
  | Other_set
  | Other_reset

text \<open>
  The result of a wait with a timeout. The file only compares it with
  \<^verbatim>\<open>OS_SYNC_TIME_EXCEEDED\<close>, whose value is declared outside; every other result is
  \<open>OS_SYNC_SIGNALLED\<close> here.
\<close>

datatype os_sync = OS_SYNC_SIGNALLED | OS_SYNC_TIME_EXCEEDED

text \<open>The primitive calls of this thread, with their arguments and results.\<close>

datatype call =
    Mutex_lock
  | Mutex_unlock
  | List_add_last ptr
  | List_get_first "ib_list_node_t option"
  | List_is_empty bool
  | List_len nat
  | List_remove ib_list_node_t
  | Event_set
  | Event_reset int
  | Event_wait
  | Event_wait_time nat int os_sync

text \<open>
  The view of one thread. \<open>env\<close> holds, for each stretch of time this thread will spend
  without the mutex (waiting on the event, then acquiring the mutex), the operations the
  other threads perform meanwhile; when it is exhausted no other thread touches the queue.
\<close>

record world =
  wq :: ib_wqueue_t
  env :: "other list list"
  calls :: "call list"

subsection \<open>The event\<close>

text \<open>
  Modelled from the spec: the operations of the event, "set, reset, wait-indefinitely,
  wait-with-timeout-and-generation-check, read-current-generation". The generation
  counter is "bumped on every signal-raising event"; reset clears the event and returns
  the current generation.
\<close>

definition event_set :: "os_event \<Rightarrow> os_event" where
  "event_set e = e\<lparr>is_set := True, signal_count := signal_count e + 1\<rparr>"

definition event_reset :: "os_event \<Rightarrow> os_event" where
  "event_reset e = e\<lparr>is_set := False\<rparr>"

subsection \<open>The other threads\<close>

fun other_step :: "other \<Rightarrow> ib_wqueue_t \<Rightarrow> ib_wqueue_t" where
  "other_step (Other_add_last p) q = q\<lparr>items := items q @ [Node p]\<rparr>"
| "other_step Other_remove_first q =
     (case items q of [] \<Rightarrow> q | n # ns \<Rightarrow> q\<lparr>items := ns\<rparr>)"
| "other_step Other_set q = q\<lparr>event := event_set (event q)\<rparr>"
| "other_step Other_reset q = q\<lparr>event := event_reset (event q)\<rparr>"

fun run_others :: "other list \<Rightarrow> ib_wqueue_t \<Rightarrow> ib_wqueue_t" where
  "run_others [] q = q"
| "run_others (x # xs) q = run_others xs (other_step x q)"

text \<open>Is the event set at some moment while the others run?\<close>

fun seen_set :: "other list \<Rightarrow> ib_wqueue_t \<Rightarrow> bool" where
  "seen_set [] q = is_set (event q)"
| "seen_set (x # xs) q = (is_set (event q) \<or> seen_set xs (other_step x q))"

text \<open>Is the event set, or its generation different from \<open>c\<close>, at some moment?\<close>

fun seen_signal :: "int \<Rightarrow> other list \<Rightarrow> ib_wqueue_t \<Rightarrow> bool" where
  "seen_signal c [] q = (is_set (event q) \<or> signal_count (event q) \<noteq> c)"
| "seen_signal c (x # xs) q =
     (is_set (event q) \<or> signal_count (event q) \<noteq> c \<or> seen_signal c xs (other_step x q))"

subsection \<open>Primitive calls\<close>

definition record_call :: "call \<Rightarrow> world \<Rightarrow> world" where
  "record_call c w = w\<lparr>calls := calls w @ [c]\<rparr>"

text \<open>
  Modelled from the spec: the mutex (declared outside this file) is "a mutual-exclusion
  primitive offering acquire/release with standard mutual-exclusion semantics". It is
  not recursive: locking it while it is held never returns. The critical sections of
  the other threads are whole steps of \<open>env\<close>, so the mutex is only ever seen held when
  this thread (or its caller) holds it.
\<close>

definition mysql_mutex_lock :: "world \<Rightarrow> world option" where
  "mysql_mutex_lock w =
     (if mutex (wq w) then None
      else Some (record_call Mutex_lock (w\<lparr>wq := (wq w)\<lparr>mutex := True\<rparr>\<rparr>)))"

definition mysql_mutex_unlock :: "world \<Rightarrow> world" where
  "mysql_mutex_unlock w = record_call Mutex_unlock (w\<lparr>wq := (wq w)\<lparr>mutex := False\<rparr>\<rparr>)"

text \<open>
  Modelled from the spec: the list (\<^verbatim>\<open>ut0list.h\<close>, outside this file) is an "ordered
  sequence container" with "insert-at-tail, remove-a-node, first-node lookup, emptiness
  check, count".
\<close>

definition ib_list_add_last :: "ptr \<Rightarrow> world \<Rightarrow> world" where
  "ib_list_add_last item w =
     record_call (List_add_last item) (w\<lparr>wq := (wq w)\<lparr>items := items (wq w) @ [Node item]\<rparr>\<rparr>)"

definition first_node :: "ib_list_t \<Rightarrow> ib_list_node_t option" where
  "first_node ns = (case ns of [] \<Rightarrow> None | n # ns' \<Rightarrow> Some n)"

definition ib_list_get_first :: "world \<Rightarrow> ib_list_node_t option \<times> world" where
  "ib_list_get_first w =
     (let node = first_node (items (wq w))
      in (node, record_call (List_get_first node) w))"

definition ib_list_is_empty :: "world \<Rightarrow> bool \<times> world" where
  "ib_list_is_empty w =
     (let e = (items (wq w) = []) in (e, record_call (List_is_empty e) w))"

definition ib_list_len :: "world \<Rightarrow> nat \<times> world" where
  "ib_list_len w =
     (let len = length (items (wq w)) in (len, record_call (List_len len) w))"

definition ib_list_remove :: "ib_list_node_t \<Rightarrow> world \<Rightarrow> world" where
  "ib_list_remove node w =
     record_call (List_remove node) (w\<lparr>wq := (wq w)\<lparr>items := remove1 node (items (wq w))\<rparr>\<rparr>)"

definition os_event_set :: "world \<Rightarrow> world" where
  "os_event_set w = record_call Event_set (w\<lparr>wq := (wq w)\<lparr>event := event_set (event (wq w))\<rparr>\<rparr>)"

definition os_event_reset :: "world \<Rightarrow> int \<times> world" where
  "os_event_reset w =
     (let c = signal_count (event (wq w))
      in (c, record_call (Event_reset c) (w\<lparr>wq := (wq w)\<lparr>event := event_reset (event (wq w))\<rparr>\<rparr>)))"

text \<open>
  Modelled from the spec: the "wait-indefinitely" of the event (\<^verbatim>\<open>os_event_wait\<close>,
  outside this file). The thread sleeps through the stretches of \<open>env\<close> in which
  the event is never set. It wakes in the first stretch in which the event is set at some
  moment; the rest of that stretch happens before the thread gets the mutex. When nobody
  is left to set the event the thread sleeps forever.
\<close>

fun event_wait :: "other list list \<Rightarrow> ib_wqueue_t \<Rightarrow> (other list list \<times> ib_wqueue_t) option" where
  "event_wait [] q = (if is_set (event q) then Some ([], q) else None)"
| "event_wait (xs # xss) q =
     (if seen_set xs q then Some (xss, run_others xs q)
      else event_wait xss (run_others xs q))"

definition os_event_wait :: "world \<Rightarrow> world option" where
  "os_event_wait w = do {
     (xss, q) \<leftarrow> event_wait (env w) (wq w);
     Some (record_call Event_wait (w\<lparr>wq := q, env := xss\<rparr>))
   }"

text \<open>
  Modelled from the spec: the "wait-with-timeout-and-generation-check" of the event
  (\<^verbatim>\<open>os_event_wait_time_low\<close>, outside this file), which waits "for at most
  \<open>timeout\<close> or until the generation changes". One stretch of \<open>env\<close> passes. The wait
  ends early when the event is set or its generation differs from \<open>reset_sig_count\<close> at
  some moment of the stretch, and runs into the timeout otherwise.
\<close>

definition first_stretch :: "world \<Rightarrow> other list" where
  "first_stretch w = (case env w of [] \<Rightarrow> [] | ys # yss \<Rightarrow> ys)"

definition os_event_wait_time_low :: "nat \<Rightarrow> int \<Rightarrow> world \<Rightarrow> os_sync \<times> world" where
  "os_event_wait_time_low time_in_usec reset_sig_count w =
     (let xs = first_stretch w;
          error = (if seen_signal reset_sig_count xs (wq w) then OS_SYNC_SIGNALLED
                   else OS_SYNC_TIME_EXCEEDED)
      in (error,
          record_call (Event_wait_time time_in_usec reset_sig_count error)
            (w\<lparr>wq := run_others xs (wq w), env := tl (env w)\<rparr>)))"

subsection \<open>The functions of the file\<close>

text \<open>
  \<^verbatim>\<open>ib_wqueue_create\<close>: an unlocked mutex, an empty list, a clear event.
  \<^verbatim>\<open>ib_wqueue_free\<close> only gives the three back and has no model.
\<close>

definition ib_wqueue_create :: ib_wqueue_t where
  "ib_wqueue_create =
     \<lparr>mutex = False, items = [], event = \<lparr>is_set = False, signal_count = 0\<rparr>\<rparr>"

text \<open>
  \<^verbatim>\<open>ib_wqueue_add\<close>. The heap only serves to allocate the node and is left out.
\<close>

definition ib_wqueue_add :: "ptr \<Rightarrow> bool \<Rightarrow> world \<Rightarrow> world option" where
  "ib_wqueue_add item wq_locked w = do {
     w1 \<leftarrow> (if \<not> wq_locked then mysql_mutex_lock w else Some w);
     let w2 = ib_list_add_last item w1;
     let w3 = os_event_set w2;
     Some (if \<not> wq_locked then mysql_mutex_unlock w3 else w3)
   }"

text \<open>
  \<^verbatim>\<open>ib_wqueue_wait\<close>. The loop has no bound: with the event set on an empty list and
  nobody else at work it goes round forever.
\<close>

partial_function (option) ib_wqueue_wait :: "world \<Rightarrow> (ptr \<times> world) option" where
  "ib_wqueue_wait w = do {
     w1 \<leftarrow> os_event_wait w;
     w2 \<leftarrow> mysql_mutex_lock w1;
     let (node, w3) = ib_list_get_first w2;
     case node of
       Some n \<Rightarrow>
         let w4 = ib_list_remove n w3;
             (node', w5) = ib_list_get_first w4;
             w6 = (if node' = None then snd (os_event_reset w5) else w5)
         in Some (data n, mysql_mutex_unlock w6)
     | None \<Rightarrow> ib_wqueue_wait (mysql_mutex_unlock w3)
   }"

text \<open>
  \<^verbatim>\<open>ib_wqueue_timedwait\<close>. On leaving the loop \<open>node\<close> is null exactly after a
  timeout.
\<close>

partial_function (option) ib_wqueue_timedwait :: "nat \<Rightarrow> world \<Rightarrow> (ptr \<times> world) option" where
  "ib_wqueue_timedwait wait_in_usecs w = do {
     w1 \<leftarrow> mysql_mutex_lock w;
     let (node, w2) = ib_list_get_first w1;
     case node of
       Some n \<Rightarrow>
         let w3 = ib_list_remove n w2
         in Some (data n, mysql_mutex_unlock w3)
     | None \<Rightarrow>
         let (sig_count, w3) = os_event_reset w2;
             w4 = mysql_mutex_unlock w3;
             (error, w5) = os_event_wait_time_low wait_in_usecs sig_count w4
         in if error = OS_SYNC_TIME_EXCEEDED then Some (NULL, w5)
            else ib_wqueue_timedwait wait_in_usecs w5
   }"

text \<open>\<^verbatim>\<open>ib_wqueue_nowait\<close>.\<close>

definition ib_wqueue_nowait :: "world \<Rightarrow> (ptr \<times> world) option" where
  "ib_wqueue_nowait w = do {
     w1 \<leftarrow> mysql_mutex_lock w;
     let (e, w2) = ib_list_is_empty w1;
     let (node, w3) =
       (if \<not> e then
          (let (node, w') = ib_list_get_first w2
           in case node of
                Some n \<Rightarrow> (node, ib_list_remove n w')
              | None \<Rightarrow> (node, w'))
        else (None, w2));
     let (e', w4) = ib_list_is_empty w3;
     let w5 = (if e' then snd (os_event_reset w4) else w4);
     Some (case node of Some n \<Rightarrow> data n | None \<Rightarrow> NULL, mysql_mutex_unlock w5)
   }"

text \<open>\<^verbatim>\<open>ib_wqueue_is_empty\<close> and \<^verbatim>\<open>ib_wqueue_len\<close>.\<close>

definition ib_wqueue_is_empty :: "world \<Rightarrow> (bool \<times> world) option" where
  "ib_wqueue_is_empty w = do {
     w1 \<leftarrow> mysql_mutex_lock w;
     let (is_empty, w2) = ib_list_is_empty w1;
     Some (is_empty, mysql_mutex_unlock w2)
   }"

definition ib_wqueue_len :: "world \<Rightarrow> (nat \<times> world) option" where
  "ib_wqueue_len w = do {
     w1 \<leftarrow> mysql_mutex_lock w;
     let (len, w2) = ib_list_len w1;
     Some (len, mysql_mutex_unlock w2)
   }"

subsection \<open>The calls of one round\<close>

text \<open>
  The primitive calls of one round of the loop of \<^verbatim>\<open>ib_wqueue_wait\<close>: a round that
  finds no node, and the round that removes \<open>n\<close> and leaves \<open>ns\<close> in the list, the
  generation being \<open>c\<close>.
\<close>

definition wait_retry :: "call list" where
  "wait_retry = [Event_wait, Mutex_lock, List_get_first None, Mutex_unlock]"

definition wait_removal :: "ib_list_node_t \<Rightarrow> ib_list_t \<Rightarrow> int \<Rightarrow> call list" where
  "wait_removal n ns c =
     [Event_wait, Mutex_lock, List_get_first (Some n), List_remove n,
      List_get_first (first_node ns)] @
     (if ns = [] then [Event_reset c] else []) @ [Mutex_unlock]"

text \<open>
  The rounds of \<^verbatim>\<open>ib_wqueue_timedwait\<close>: a round that finds no node, at generation
  \<open>c\<close>, and whose wait ends with \<open>err\<close>; and the round that removes \<open>n\<close>.
\<close>

definition timedwait_round :: "nat \<Rightarrow> int \<Rightarrow> os_sync \<Rightarrow> call list" where
  "timedwait_round t c err =
     [Mutex_lock, List_get_first None, Event_reset c, Mutex_unlock, Event_wait_time t c err]"

definition timedwait_removal :: "ib_list_node_t \<Rightarrow> call list" where
  "timedwait_removal n = [Mutex_lock, List_get_first (Some n), List_remove n, Mutex_unlock]"

text \<open>The view after a round of \<^verbatim>\<open>ib_wqueue_timedwait\<close> that found no node.\<close>

definition timedwait_slept :: "nat \<Rightarrow> os_sync \<Rightarrow> world \<Rightarrow> world" where
  "timedwait_slept t err w =
     w\<lparr>wq := run_others (first_stretch w) ((wq w)\<lparr>event := event_reset (event (wq w))\<rparr>),
       env := tl (env w),
       calls := calls w @ timedwait_round t (signal_count (event (wq w))) err\<rparr>"

subsection \<open>Where the event is reset\<close>

text \<open>The calls a function has made between the views \<open>w\<close> and \<open>w'\<close>.\<close>

definition new_calls :: "world \<Rightarrow> world \<Rightarrow> call list" where
  "new_calls w w' = drop (length (calls w)) (calls w')"

definition is_reset :: "call \<Rightarrow> bool" where
  "is_reset c = (case c of Event_reset k \<Rightarrow> True | _ \<Rightarrow> False)"

definition is_remove :: "call option \<Rightarrow> bool" where
  "is_remove c = (case c of Some (List_remove n) \<Rightarrow> True | _ \<Rightarrow> False)"

text \<open>The call has just found the list empty.\<close>

definition saw_empty :: "call option \<Rightarrow> bool" where
  "saw_empty c = (c = Some (List_get_first None) \<or> c = Some (List_is_empty True))"

text \<open>Does the function hold the mutex after the call \<open>c\<close>, if \<open>held\<close> says so before?\<close>

definition holds_after :: "call \<Rightarrow> bool \<Rightarrow> bool" where
  "holds_after c held = (case c of Mutex_lock \<Rightarrow> True | Mutex_unlock \<Rightarrow> False | _ \<Rightarrow> held)"

text \<open>
  \<open>resets_ok ok held pp p cs\<close>: every reset of the event in \<open>cs\<close> is made with the mutex
  locked by the function itself and when \<open>ok\<close> holds of the two calls before it; \<open>pp\<close>
  and \<open>p\<close> are the two calls before \<open>cs\<close>, and \<open>held\<close> says whether the function has
  locked the mutex before \<open>cs\<close>.
\<close>

fun resets_ok :: "(call option \<Rightarrow> call option \<Rightarrow> bool) \<Rightarrow> bool \<Rightarrow> call option \<Rightarrow>
    call option \<Rightarrow> call list \<Rightarrow> bool" where
  "resets_ok ok held pp p [] = True"
| "resets_ok ok held pp p (c # cs) =
     ((if is_reset c then held \<and> ok pp p else True) \<and>
      resets_ok ok (holds_after c held) p (Some c) cs)"

text \<open>No call resets the event.\<close>

definition no_reset :: "call list \<Rightarrow> bool" where
  "no_reset cs = resets_ok (\<lambda>pp p. False) False None None cs"

text \<open>
  Every reset is made under the mutex, directly after a call that found the list empty.
\<close>

definition resets_guarded :: "call list \<Rightarrow> bool" where
  "resets_guarded cs = resets_ok (\<lambda>pp p. saw_empty p) False None None cs"

text \<open>
  Every reset is made under the mutex, directly after a call that found the list empty,
  itself directly after a removal: the removal by this very function has emptied the
  list.
\<close>

definition resets_follow_removal :: "call list \<Rightarrow> bool" where
  "resets_follow_removal cs =
     resets_ok (\<lambda>pp p. is_remove pp \<and> saw_empty p) False None None cs"

subsection \<open>One thread using the queue\<close>

text \<open>The three ways to take an item, and a thread that pushes, then takes.\<close>

datatype pop = Wait | Timedwait nat | Nowait

fun run_pop :: "pop \<Rightarrow> world \<Rightarrow> (ptr \<times> world) option" where
  "run_pop Wait w = ib_wqueue_wait w"
| "run_pop (Timedwait t) w = ib_wqueue_timedwait t w"
| "run_pop Nowait w = ib_wqueue_nowait w"

fun pushes :: "ptr list \<Rightarrow> world \<Rightarrow> world option" where
  "pushes [] w = Some w"
| "pushes (p # ps) w = do { w1 \<leftarrow> ib_wqueue_add p False w; pushes ps w1 }"

fun pops :: "pop list \<Rightarrow> world \<Rightarrow> (ptr list \<times> world) option" where
  "pops [] w = Some ([], w)"
| "pops (k # ks) w = do {
     (r, w1) \<leftarrow> run_pop k w;
     (rs, w2) \<leftarrow> pops ks w1;
     Some (r # rs, w2)
   }"

text \<open>
  A thread alone with a new queue; the view after it has pushed the item at address 65;
  and the view after \<^verbatim>\<open>ib_wqueue_timedwait\<close> has taken that item back.
\<close>

definition queue_fresh :: world where
  "queue_fresh = \<lparr>wq = ib_wqueue_create, env = [], calls = []\<rparr>"

definition queue_one :: world where
  "queue_one =
     \<lparr>wq = \<lparr>mutex = False, items = [Node 65], event = \<lparr>is_set = True, signal_count = 1\<rparr>\<rparr>,
      env = [],
      calls = [Mutex_lock, List_add_last 65, Event_set, Mutex_unlock]\<rparr>"

definition queue_drained :: world where
  "queue_drained =
     \<lparr>wq = \<lparr>mutex = False, items = [], event = \<lparr>is_set = True, signal_count = 1\<rparr>\<rparr>,
      env = [],
      calls = [Mutex_lock, List_add_last 65, Event_set, Mutex_unlock,
               Mutex_lock, List_get_first (Some (Node 65)), List_remove (Node 65), Mutex_unlock]\<rparr>"

text \<open>The view after \<^verbatim>\<open>ib_wqueue_nowait\<close> has then been called on the empty list.\<close>

definition queue_cleared :: world where
  "queue_cleared =
     \<lparr>wq = \<lparr>mutex = False, items = [], event = \<lparr>is_set = False, signal_count = 1\<rparr>\<rparr>,
      env = [],
      calls = [Mutex_lock, List_add_last 65, Event_set, Mutex_unlock,
               Mutex_lock, List_get_first (Some (Node 65)), List_remove (Node 65), Mutex_unlock,
               Mutex_lock, List_is_empty True, List_is_empty True, Event_reset 1,
               Mutex_unlock]\<rparr>"

text \<open>
  A new queue on which, while this thread first goes without the mutex, another thread
  adds the item at address 7 and sets the event; and one on which this thread is woken
  twice with the list still empty (another thread sets the event and adds nothing)
  before the item at address 7 is added.
\<close>

definition queue_signalled :: world where
  "queue_signalled = queue_fresh\<lparr>env := [[Other_add_last 7, Other_set]]\<rparr>"

definition queue_raced_twice :: world where
  "queue_raced_twice =
     queue_fresh\<lparr>env := [[Other_set], [], [Other_add_last 7, Other_set]]\<rparr>"

subsection \<open>Many threads using the queue\<close>

text \<open>
  Producers and any number of consumers, numbered, their calls taken in some order. The
  list is only touched with the mutex held, so the calls take effect one after the
  other; a call that goes round its loop more than once takes effect as its rounds do,
  and a round that removes nothing changes the queue as a call of
  \<^verbatim>\<open>ib_wqueue_timedwait\<close> that runs into its timeout does, or not at all. A step of a
  schedule is a push, or a call by consumer \<open>i\<close> of one of the three functions that take
  an item. The nodes a call has removed are read from its calls on the list, and a call
  that has removed a node has handed the value it returns to its consumer.
\<close>

datatype step = Push ptr | Pop nat pop

fun removed :: "call list \<Rightarrow> ib_list_node_t list" where
  "removed [] = []"
| "removed (c # cs) = (case c of List_remove n \<Rightarrow> n # removed cs | _ \<Rightarrow> removed cs)"

fun pushed :: "step list \<Rightarrow> ptr list" where
  "pushed [] = []"
| "pushed (Push p # ss) = p # pushed ss"
| "pushed (Pop i k # ss) = pushed ss"

fun run_schedule :: "step list \<Rightarrow> world \<Rightarrow> ((nat \<times> ptr) list \<times> world) option" where
  "run_schedule [] w = Some ([], w)"
| "run_schedule (Push p # ss) w = do {
     w1 \<leftarrow> ib_wqueue_add p False w;
     run_schedule ss w1
   }"
| "run_schedule (Pop i k # ss) w = do {
     (r, w1) \<leftarrow> run_pop k w;
     (ds, w2) \<leftarrow> run_schedule ss w1;
     Some (map (\<lambda>n. (i, r)) (removed (new_calls w w1)) @ ds, w2)
   }"

text \<open>
  Two consumers and three pushes, one call finding the list empty; and a schedule that
  leaves two items in the list.
\<close>

definition schedule_two_consumers :: "step list" where
  "schedule_two_consumers =
     [Push 65, Pop 0 Nowait, Pop 1 (Timedwait 50), Push 66, Push 67, Pop 1 Wait,
      Pop 1 Nowait]"

definition schedule_unfinished :: "step list" where
  "schedule_unfinished = [Push 65, Push 66, Pop 0 (Timedwait 50), Push 67]"

declare ib_wqueue_wait.simps [code]

declare ib_wqueue_timedwait.simps [code]

section \<open>Properties\<close>

subsection \<open>Each function, one round at a time\<close>

lemmas prims = record_call_def mysql_mutex_lock_def mysql_mutex_unlock_def ib_list_add_last_def
  ib_list_get_first_def ib_list_is_empty_def ib_list_len_def ib_list_remove_def os_event_set_def
  os_event_reset_def os_event_wait_time_low_def first_node_def

lemma mutex_False_id [simp]: "\<not> mutex q \<Longrightarrow> q\<lparr>mutex := False\<rparr> = q"
  by (cases q) simp

lemma mutex_other_step [simp]: "mutex (other_step x q) = mutex q"
  by (cases x) (auto split: list.splits)

lemma mutex_run_others [simp]: "mutex (run_others xs q) = mutex q"
  by (induction xs arbitrary: q) auto

lemma not_seen_signal:
  "\<not> seen_signal c xs q \<Longrightarrow>
   \<not> is_set (event (run_others xs q)) \<and> signal_count (event (run_others xs q)) = c"
  by (induction xs arbitrary: q) auto

lemma ib_wqueue_add_eq:
  "wq_locked \<or> \<not> mutex (wq w) \<Longrightarrow>
   ib_wqueue_add item wq_locked w =
     Some (w\<lparr>wq := (wq w)\<lparr>items := items (wq w) @ [Node item],
                           event := event_set (event (wq w))\<rparr>,
             calls := calls w @ (if wq_locked then [] else [Mutex_lock]) @
                      [List_add_last item, Event_set] @
                      (if wq_locked then [] else [Mutex_unlock])\<rparr>)"
  by (auto simp: ib_wqueue_add_def prims Let_def)

lemma ib_wqueue_nowait_Nil:
  "\<not> mutex (wq w) \<Longrightarrow> items (wq w) = [] \<Longrightarrow>
   ib_wqueue_nowait w =
     Some (NULL, w\<lparr>wq := (wq w)\<lparr>event := event_reset (event (wq w))\<rparr>,
                   calls := calls w @ [Mutex_lock, List_is_empty True, List_is_empty True,
                      Event_reset (signal_count (event (wq w))), Mutex_unlock]\<rparr>)"
  by (auto simp: ib_wqueue_nowait_def prims Let_def)

lemma ib_wqueue_nowait_Cons:
  "\<not> mutex (wq w) \<Longrightarrow> items (wq w) = n # ns \<Longrightarrow>
   ib_wqueue_nowait w =
     Some (data n, w\<lparr>wq := (wq w)\<lparr>items := ns,
                       event := (if ns = [] then event_reset (event (wq w)) else event (wq w))\<rparr>,
                   calls := calls w @ [Mutex_lock, List_is_empty False, List_get_first (Some n),
                      List_remove n, List_is_empty (ns = [])] @
                      (if ns = [] then [Event_reset (signal_count (event (wq w)))] else []) @
                      [Mutex_unlock]\<rparr>)"
  by (auto simp: ib_wqueue_nowait_def prims Let_def)

lemma ib_wqueue_is_empty_eq:
  "\<not> mutex (wq w) \<Longrightarrow>
   ib_wqueue_is_empty w =
     Some (items (wq w) = [],
           w\<lparr>calls := calls w @ [Mutex_lock, List_is_empty (items (wq w) = []), Mutex_unlock]\<rparr>)"
  by (auto simp: ib_wqueue_is_empty_def prims Let_def)

lemma ib_wqueue_len_eq:
  "\<not> mutex (wq w) \<Longrightarrow>
   ib_wqueue_len w =
     Some (length (items (wq w)),
           w\<lparr>calls := calls w @ [Mutex_lock, List_len (length (items (wq w))), Mutex_unlock]\<rparr>)"
  by (auto simp: ib_wqueue_len_def prims Let_def)

lemma ib_wqueue_timedwait_Cons:
  "\<not> mutex (wq w) \<Longrightarrow> items (wq w) = n # ns \<Longrightarrow>
   ib_wqueue_timedwait t w =
     Some (data n, w\<lparr>wq := (wq w)\<lparr>items := ns\<rparr>, calls := calls w @ timedwait_removal n\<rparr>)"
  by (subst ib_wqueue_timedwait.simps) (auto simp: prims Let_def timedwait_removal_def)

lemma ib_wqueue_timedwait_Nil_timeout:
  "\<not> mutex (wq w) \<Longrightarrow> items (wq w) = [] \<Longrightarrow>
   \<not> seen_signal (signal_count (event (wq w))) (first_stretch w)
        ((wq w)\<lparr>event := event_reset (event (wq w))\<rparr>) \<Longrightarrow>
   ib_wqueue_timedwait t w = Some (NULL, timedwait_slept t OS_SYNC_TIME_EXCEEDED w)"
  by (subst ib_wqueue_timedwait.simps)
     (auto simp: prims Let_def timedwait_round_def timedwait_slept_def first_stretch_def)

lemma ib_wqueue_timedwait_Nil_signalled:
  "\<not> mutex (wq w) \<Longrightarrow> items (wq w) = [] \<Longrightarrow>
   seen_signal (signal_count (event (wq w))) (first_stretch w)
        ((wq w)\<lparr>event := event_reset (event (wq w))\<rparr>) \<Longrightarrow>
   ib_wqueue_timedwait t w = ib_wqueue_timedwait t (timedwait_slept t OS_SYNC_SIGNALLED w)"
  by (subst ib_wqueue_timedwait.simps)
     (auto simp: prims Let_def timedwait_round_def timedwait_slept_def first_stretch_def)

text \<open>With nobody else at work, an empty queue makes the timed wait run into its timeout.\<close>

lemma ib_wqueue_timedwait_Nil_alone:
  "\<not> mutex (wq w) \<Longrightarrow> items (wq w) = [] \<Longrightarrow> env w = [] \<Longrightarrow>
   ib_wqueue_timedwait t w =
     Some (NULL, w\<lparr>wq := (wq w)\<lparr>event := event_reset (event (wq w))\<rparr>,
                   calls := calls w @
                     timedwait_round t (signal_count (event (wq w))) OS_SYNC_TIME_EXCEEDED\<rparr>)"
  by (subst ib_wqueue_timedwait_Nil_timeout)
     (auto simp: first_stretch_def event_reset_def timedwait_slept_def)

lemma ib_wqueue_timedwait_locked:
  "mutex (wq w) \<Longrightarrow> ib_wqueue_timedwait t w = None"
  by (subst ib_wqueue_timedwait.simps) (simp add: mysql_mutex_lock_def)

lemma ib_wqueue_nowait_locked:
  "mutex (wq w) \<Longrightarrow> ib_wqueue_nowait w = None"
  by (simp add: ib_wqueue_nowait_def mysql_mutex_lock_def)

lemma ib_wqueue_nowait_eq:
  "\<not> mutex (wq w) \<Longrightarrow>
   ib_wqueue_nowait w =
     (case items (wq w) of
        [] \<Rightarrow>
          Some (NULL, w\<lparr>wq := (wq w)\<lparr>event := event_reset (event (wq w))\<rparr>,
                   calls := calls w @ [Mutex_lock, List_is_empty True, List_is_empty True,
                      Event_reset (signal_count (event (wq w))), Mutex_unlock]\<rparr>)
      | n # ns \<Rightarrow>
          Some (data n, w\<lparr>wq := (wq w)\<lparr>items := ns,
                       event := (if ns = [] then event_reset (event (wq w)) else event (wq w))\<rparr>,
                   calls := calls w @ [Mutex_lock, List_is_empty False, List_get_first (Some n),
                      List_remove n, List_is_empty (ns = [])] @
                      (if ns = [] then [Event_reset (signal_count (event (wq w)))] else []) @
                      [Mutex_unlock]\<rparr>))"
  by (cases "items (wq w)") (simp_all add: ib_wqueue_nowait_Nil ib_wqueue_nowait_Cons)

text \<open>The views \<open>queue_one\<close> and \<open>queue_drained\<close> are reached from the new queue.\<close>

lemma add_queue_fresh: "ib_wqueue_add 65 False queue_fresh = Some queue_one"
  by (simp add: ib_wqueue_add_eq queue_fresh_def queue_one_def ib_wqueue_create_def event_set_def)

lemma timedwait_queue_one: "ib_wqueue_timedwait 50 queue_one = Some (65, queue_drained)"
  by (simp add: ib_wqueue_timedwait_Cons [where n = "Node 65" and ns = "[]"]
      queue_one_def queue_drained_def timedwait_removal_def)

subsection \<open>The loop of \<^verbatim>\<open>ib_wqueue_timedwait\<close>\<close>

text \<open>
  Called without the mutex held, \<^verbatim>\<open>ib_wqueue_timedwait\<close> returns: every round that
  finds no node uses up one stretch of \<open>env\<close>, and with nobody left to signal the wait
  runs into its timeout. Its calls are rounds that found no node and were signalled,
  then either the round that removes a node or a round that found none and timed out.
\<close>

lemma ib_wqueue_timedwait_rounds:
  "\<not> mutex (wq w) \<Longrightarrow>
   \<exists>r w' cs fin. ib_wqueue_timedwait t w = Some (r, w') \<and> \<not> mutex (wq w') \<and>
     calls w' = calls w @ concat (map (\<lambda>c. timedwait_round t c OS_SYNC_SIGNALLED) cs) @ fin \<and>
     ((\<exists>n. fin = timedwait_removal n \<and> r = data n) \<or>
      (\<exists>c. fin = timedwait_round t c OS_SYNC_TIME_EXCEEDED \<and> r = NULL \<and>
           \<not> is_set (event (wq w')) \<and> signal_count (event (wq w')) = c))"
proof (induction "env w" arbitrary: w)
  case Nil
  show ?case
  proof (cases "items (wq w)")
    case (Cons n ns)
    with Nil show ?thesis
      by (intro exI[of _ "data n"]
            exI[of _ "w\<lparr>wq := (wq w)\<lparr>items := ns\<rparr>, calls := calls w @ timedwait_removal n\<rparr>"]
            exI[of _ "[]::int list"] exI[of _ "timedwait_removal n"])
         (auto simp: ib_wqueue_timedwait_Cons)
  next
    case empty: Nil
    from Nil empty show ?thesis
      by (intro exI[of _ NULL]
            exI[of _ "w\<lparr>wq := (wq w)\<lparr>event := event_reset (event (wq w))\<rparr>,
                   calls := calls w @
                     timedwait_round t (signal_count (event (wq w))) OS_SYNC_TIME_EXCEEDED\<rparr>"]
            exI[of _ "[]::int list"]
            exI[of _ "timedwait_round t (signal_count (event (wq w))) OS_SYNC_TIME_EXCEEDED"])
         (auto simp: ib_wqueue_timedwait_Nil_alone event_reset_def)
  qed
next
  case (Cons ys yss)
  show ?case
  proof (cases "items (wq w)")
    case c: (Cons n ns)
    with Cons show ?thesis
      by (intro exI[of _ "data n"]
            exI[of _ "w\<lparr>wq := (wq w)\<lparr>items := ns\<rparr>, calls := calls w @ timedwait_removal n\<rparr>"]
            exI[of _ "[]::int list"] exI[of _ "timedwait_removal n"])
         (auto simp: ib_wqueue_timedwait_Cons)
  next
    case empty: Nil
    let ?c = "signal_count (event (wq w))"
    let ?q = "(wq w)\<lparr>event := event_reset (event (wq w))\<rparr>"
    show ?thesis
    proof (cases "seen_signal ?c (first_stretch w) ?q")
      case False
      from not_seen_signal [OF False] Cons.prems empty False show ?thesis
        by (intro exI[of _ NULL] exI[of _ "timedwait_slept t OS_SYNC_TIME_EXCEEDED w"]
              exI[of _ "[]::int list"] exI[of _ "timedwait_round t ?c OS_SYNC_TIME_EXCEEDED"])
           (auto simp: ib_wqueue_timedwait_Nil_timeout timedwait_slept_def)
    next
      case True
      let ?v = "timedwait_slept t OS_SYNC_SIGNALLED w"
      have eq: "ib_wqueue_timedwait t w = ib_wqueue_timedwait t ?v"
        using Cons.prems empty True by (rule ib_wqueue_timedwait_Nil_signalled)
      have "yss = env ?v"
        using Cons.hyps(2) [symmetric] by (simp add: timedwait_slept_def)
      moreover have "\<not> mutex (wq ?v)"
        using Cons.prems by (simp add: timedwait_slept_def)
      ultimately obtain r w' cs fin where
        r: "ib_wqueue_timedwait t ?v = Some (r, w')" "\<not> mutex (wq w')"
          "calls w' = calls ?v @ concat (map (\<lambda>c. timedwait_round t c OS_SYNC_SIGNALLED) cs) @ fin"
          "(\<exists>n. fin = timedwait_removal n \<and> r = data n) \<or>
           (\<exists>c. fin = timedwait_round t c OS_SYNC_TIME_EXCEEDED \<and> r = NULL \<and>
              \<not> is_set (event (wq w')) \<and> signal_count (event (wq w')) = c)"
        using Cons.hyps(1) by blast
      show ?thesis
        using r eq
        by (intro exI[of _ r] exI[of _ w'] exI[of _ "?c # cs"] exI[of _ fin])
           (simp add: timedwait_slept_def)
    qed
  qed
qed

subsection \<open>The loop of \<^verbatim>\<open>ib_wqueue_wait\<close>\<close>

lemma os_event_wait_calls:
  "os_event_wait w = Some w1 \<Longrightarrow> calls w1 = calls w @ [Event_wait]"
  by (auto simp: os_event_wait_def record_call_def split: Option.bind_splits)

text \<open>One round of the loop, whatever the next rounds (\<open>f\<close>) do.\<close>

lemma wait_body_cases:
  assumes "(os_event_wait w \<bind>
     (\<lambda>w1. mysql_mutex_lock w1 \<bind>
           (\<lambda>w2. let (node, w3) = ib_list_get_first w2
                 in case node of
                    None \<Rightarrow> f (mysql_mutex_unlock w3)
                    | Some n \<Rightarrow>
                        let w4 = ib_list_remove n w3;
                            (node', w5) = ib_list_get_first w4;
                            w6 = if node' = None
                                 then snd (os_event_reset w5) else w5
                        in Some (data n, mysql_mutex_unlock w6)))) = Some y"
  obtains (retry) w1 where "os_event_wait w = Some w1" "\<not> mutex (wq w1)" "items (wq w1) = []"
      "f (w1\<lparr>calls := calls w @ wait_retry\<rparr>) = Some y"
    | (removal) w1 n ns where "os_event_wait w = Some w1" "\<not> mutex (wq w1)"
      "items (wq w1) = n # ns"
      "y = (data n, w1\<lparr>wq := (wq w1)\<lparr>items := ns,
                event := (if ns = [] then event_reset (event (wq w1)) else event (wq w1))\<rparr>,
              calls := calls w @ wait_removal n ns (signal_count (event (wq w1)))\<rparr>)"
proof -
  from assms obtain w1 where w1: "os_event_wait w = Some w1"
    by (auto split: Option.bind_splits)
  note c = os_event_wait_calls [OF w1]
  from assms w1 have m: "\<not> mutex (wq w1)"
    by (auto simp: mysql_mutex_lock_def split: if_splits)
  show thesis
  proof (cases "items (wq w1)")
    case Nil
    with assms w1 m c have "f (w1\<lparr>calls := calls w @ wait_retry\<rparr>) = Some y"
      by (simp add: prims Let_def wait_retry_def)
    with w1 m Nil show thesis by (rule retry)
  next
    case (Cons n ns)
    with assms w1 m c have "y = (data n, w1\<lparr>wq := (wq w1)\<lparr>items := ns,
                event := (if ns = [] then event_reset (event (wq w1)) else event (wq w1))\<rparr>,
              calls := calls w @ wait_removal n ns (signal_count (event (wq w1)))\<rparr>)"
      by (auto simp: prims Let_def wait_removal_def split: list.splits)
    with w1 m Cons show thesis by (rule removal)
  qed
qed

text \<open>
  When \<^verbatim>\<open>ib_wqueue_wait\<close> returns, its calls are rounds that found no node, each
  unlocking the mutex before the next wait, then the round that removes the node whose
  data is returned; that round resets the event exactly when it leaves the list empty.
\<close>

lemma ib_wqueue_wait_rounds:
  assumes "ib_wqueue_wait w = Some y"
  shows "\<exists>k n. calls (snd y) = calls w @ concat (replicate k wait_retry) @
            wait_removal n (items (wq (snd y))) (signal_count (event (wq (snd y)))) \<and>
     fst y = data n \<and> \<not> mutex (wq (snd y)) \<and>
     (items (wq (snd y)) = [] \<longrightarrow> \<not> is_set (event (wq (snd y))))"
proof (rule ib_wqueue_wait.raw_induct [where w = w and y = y and P = "\<lambda>w y.
    \<exists>k n. calls (snd y) = calls w @ concat (replicate k wait_retry) @
            wait_removal n (items (wq (snd y))) (signal_count (event (wq (snd y)))) \<and>
     fst y = data n \<and> \<not> mutex (wq (snd y)) \<and>
     (items (wq (snd y)) = [] \<longrightarrow> \<not> is_set (event (wq (snd y))))"], goal_cases)
  case (1 f w y)
  from 1(2) show ?case
  proof (cases rule: wait_body_cases)
    case (retry w1)
    from 1(1) [OF retry(4)] obtain k n where
      "calls (snd y) = calls w @ wait_retry @ concat (replicate k wait_retry) @
            wait_removal n (items (wq (snd y))) (signal_count (event (wq (snd y))))"
      "fst y = data n" "\<not> mutex (wq (snd y))"
      "items (wq (snd y)) = [] \<longrightarrow> \<not> is_set (event (wq (snd y)))"
      by auto
    then show ?thesis
      by (intro exI[of _ "Suc k"] exI[of _ n]) simp
  next
    case (removal w1 n ns)
    then show ?thesis
      by (intro exI[of _ "0::nat"] exI[of _ n]) (simp add: event_reset_def)
  qed
next
  case 2
  show ?case by (fact assms)
qed

text \<open>With the event set, a first node in the list and nobody else at work, it returns.\<close>

lemma ib_wqueue_wait_ready:
  "\<not> mutex (wq w) \<Longrightarrow> items (wq w) = n # ns \<Longrightarrow> is_set (event (wq w)) \<Longrightarrow> env w = [] \<Longrightarrow>
   ib_wqueue_wait w =
     Some (data n, w\<lparr>wq := (wq w)\<lparr>items := ns,
                event := (if ns = [] then event_reset (event (wq w)) else event (wq w))\<rparr>,
              calls := calls w @ wait_removal n ns (signal_count (event (wq w)))\<rparr>)"
  by (subst ib_wqueue_wait.simps)
     (auto simp: os_event_wait_def prims Let_def wait_removal_def split: list.splits)

lemma run_pop_unlocked:
  assumes "run_pop k w = Some (r, w')"
  shows "\<not> mutex (wq w')"
proof (cases k)
  case Wait
  with assms ib_wqueue_wait_rounds [of w "(r, w')"] show ?thesis
    by auto
next
  case (Timedwait t)
  with assms have "\<not> mutex (wq w)"
    by (auto simp: ib_wqueue_timedwait_locked)
  from ib_wqueue_timedwait_rounds [OF this, of t] Timedwait assms show ?thesis
    by auto
next
  case Nowait
  with assms have "\<not> mutex (wq w)"
    by (auto simp: ib_wqueue_nowait_locked)
  with Nowait assms show ?thesis
    by (cases "items (wq w)") (auto simp: ib_wqueue_nowait_Nil ib_wqueue_nowait_Cons)
qed

lemma nowait_queue_drained: "ib_wqueue_nowait queue_drained = Some (NULL, queue_cleared)"
  by (simp add: ib_wqueue_nowait_Nil queue_drained_def queue_cleared_def event_reset_def)

subsection \<open>Resets in the calls of the loops\<close>

lemma new_calls_append [simp]: "calls w' = calls w @ cs \<Longrightarrow> new_calls w w' = cs"
  by (simp add: new_calls_def)

lemma resets_ok_timedwait_rounds:
  assumes "\<And>held pp p. resets_ok (\<lambda>pp p. saw_empty p) held pp p fin"
  shows "resets_ok (\<lambda>pp p. saw_empty p) held pp p
           (concat (map (\<lambda>c. timedwait_round t c err) cs) @ fin)"
  using assms
  by (induction cs arbitrary: held pp p)
     (simp_all add: timedwait_round_def is_reset_def saw_empty_def holds_after_def)

lemma resets_guarded_timedwait:
  "resets_guarded (concat (map (\<lambda>c. timedwait_round t c err) cs) @ timedwait_removal n)"
  "resets_guarded (concat (map (\<lambda>c. timedwait_round t c err) cs) @ timedwait_round t c' err')"
  unfolding resets_guarded_def
  by (rule resets_ok_timedwait_rounds;
      simp add: timedwait_removal_def timedwait_round_def is_reset_def saw_empty_def
        holds_after_def)+

lemma resets_ok_wait_rounds:
  assumes "\<And>held pp p. resets_ok ok held pp p fin"
  shows "resets_ok ok held pp p (concat (replicate k wait_retry) @ fin)"
  using assms
  by (induction k arbitrary: held pp p) (simp_all add: wait_retry_def is_reset_def)

lemma resets_follow_removal_wait:
  "resets_follow_removal (concat (replicate k wait_retry) @ wait_removal n ns c)"
  unfolding resets_follow_removal_def
  by (rule resets_ok_wait_rounds)
     (simp add: wait_removal_def is_reset_def saw_empty_def is_remove_def first_node_def
        holds_after_def)

subsection \<open>One thread pushing, then taking\<close>

lemma pushes_result:
  "\<not> mutex (wq w) \<Longrightarrow>
   \<exists>w1. pushes ps w = Some w1 \<and> items (wq w1) = items (wq w) @ map Node ps \<and>
     \<not> mutex (wq w1) \<and> env w1 = env w \<and>
     is_set (event (wq w1)) = (ps \<noteq> [] \<or> is_set (event (wq w)))"
proof (induction ps arbitrary: w)
  case Nil
  then show ?case by simp
next
  case (Cons p ps)
  let ?w = "w\<lparr>wq := (wq w)\<lparr>items := items (wq w) @ [Node p],
                           event := event_set (event (wq w))\<rparr>,
             calls := calls w @ [Mutex_lock, List_add_last p, Event_set, Mutex_unlock]\<rparr>"
  have a: "ib_wqueue_add p False w = Some ?w"
    using Cons.prems by (simp add: ib_wqueue_add_eq)
  have "\<not> mutex (wq ?w)"
    using Cons.prems by simp
  from Cons.IH [OF this] a show ?case
    by (auto simp: event_set_def)
qed

text \<open>
  With nobody else at work, the event set and a first node in the list, each of the
  three functions returns the data of that node, and the event stays set while nodes
  are left.
\<close>

lemma run_pop_head:
  assumes "\<not> mutex (wq w)" "env w = []" "items (wq w) = n # ns" "is_set (event (wq w))"
  shows "\<exists>w1. run_pop k w = Some (data n, w1) \<and> \<not> mutex (wq w1) \<and> env w1 = [] \<and>
     items (wq w1) = ns \<and> (ns \<noteq> [] \<longrightarrow> is_set (event (wq w1)))"
  using assms
  by (cases k) (simp_all add: ib_wqueue_wait_ready ib_wqueue_timedwait_Cons ib_wqueue_nowait_Cons)

lemma pops_result:
  "\<not> mutex (wq w) \<Longrightarrow> env w = [] \<Longrightarrow> items (wq w) = map Node ps \<Longrightarrow>
   (ps \<noteq> [] \<longrightarrow> is_set (event (wq w))) \<Longrightarrow> length ks \<le> length ps \<Longrightarrow>
   \<exists>w2. pops ks w = Some (take (length ks) ps, w2)"
proof (induction ks arbitrary: w ps)
  case Nil
  then show ?case by simp
next
  case (Cons k ks)
  then obtain p ps' where ps: "ps = p # ps'"
    by (cases ps) auto
  with Cons.prems have "items (wq w) = Node p # map Node ps'" "is_set (event (wq w))"
    by simp_all
  from run_pop_head [OF Cons.prems(1,2) this, of k] obtain w1 where
    w1: "run_pop k w = Some (p, w1)" "\<not> mutex (wq w1)" "env w1 = []"
      "items (wq w1) = map Node ps'" "map Node ps' \<noteq> [] \<longrightarrow> is_set (event (wq w1))"
    by auto
  from Cons.prems ps have "length ks \<le> length ps'"
    by simp
  from Cons.IH [OF w1(2,3,4) _ this] w1(5) obtain w2 where
    "pops ks w1 = Some (take (length ks) ps', w2)"
    by auto
  with w1(1) ps show ?case
    by simp
qed

lemma ib_wqueue_wait_blocked:
  "os_event_wait w = None \<Longrightarrow> ib_wqueue_wait w = None"
  by (subst ib_wqueue_wait.simps) simp

lemma ib_wqueue_wait_retry:
  "os_event_wait w = Some w1 \<Longrightarrow> \<not> mutex (wq w1) \<Longrightarrow> items (wq w1) = [] \<Longrightarrow>
   ib_wqueue_wait w = ib_wqueue_wait (w1\<lparr>calls := calls w @ wait_retry\<rparr>)"
  by (subst ib_wqueue_wait.simps)
     (simp add: prims Let_def wait_retry_def os_event_wait_calls)

lemma ib_wqueue_wait_removal:
  "os_event_wait w = Some w1 \<Longrightarrow> \<not> mutex (wq w1) \<Longrightarrow> items (wq w1) = n # ns \<Longrightarrow>
   ib_wqueue_wait w =
     Some (data n, w1\<lparr>wq := (wq w1)\<lparr>items := ns,
                event := (if ns = [] then event_reset (event (wq w1)) else event (wq w1))\<rparr>,
              calls := calls w @ wait_removal n ns (signal_count (event (wq w1)))\<rparr>)"
  by (subst ib_wqueue_wait.simps)
     (auto simp: prims Let_def wait_removal_def os_event_wait_calls split: list.splits)

subsection \<open>Schedules\<close>

lemma os_event_wait_alone:
  assumes "os_event_wait w = Some w1" "env w = []"
  shows "is_set (event (wq w)) \<and> wq w1 = wq w \<and> env w1 = [] \<and> calls w1 = calls w @ [Event_wait]"
  using assms by (auto simp: os_event_wait_def record_call_def split: if_splits)

lemma ib_wqueue_wait_alone:
  assumes "ib_wqueue_wait w = Some y" and "env w = []"
  shows "\<exists>n ns. items (wq w) = n # ns \<and> is_set (event (wq w)) \<and> \<not> mutex (wq w) \<and>
     fst y = data n \<and> items (wq (snd y)) = ns \<and> env (snd y) = [] \<and> \<not> mutex (wq (snd y)) \<and>
     event (wq (snd y)) = (if ns = [] then event_reset (event (wq w)) else event (wq w)) \<and>
     calls (snd y) = calls w @ wait_removal n ns (signal_count (event (wq w)))"
proof -
  have "env w = [] \<longrightarrow> (\<exists>n ns. items (wq w) = n # ns \<and> is_set (event (wq w)) \<and> \<not> mutex (wq w) \<and>
     fst y = data n \<and> items (wq (snd y)) = ns \<and> env (snd y) = [] \<and> \<not> mutex (wq (snd y)) \<and>
     event (wq (snd y)) = (if ns = [] then event_reset (event (wq w)) else event (wq w)) \<and>
     calls (snd y) = calls w @ wait_removal n ns (signal_count (event (wq w))))"
  proof (rule ib_wqueue_wait.raw_induct [where w = w and y = y and P = "\<lambda>w y.
      env w = [] \<longrightarrow> (\<exists>n ns. items (wq w) = n # ns \<and> is_set (event (wq w)) \<and> \<not> mutex (wq w) \<and>
     fst y = data n \<and> items (wq (snd y)) = ns \<and> env (snd y) = [] \<and> \<not> mutex (wq (snd y)) \<and>
     event (wq (snd y)) = (if ns = [] then event_reset (event (wq w)) else event (wq w)) \<and>
     calls (snd y) = calls w @ wait_removal n ns (signal_count (event (wq w))))"], goal_cases)
    case (1 f w y)
    show ?case
    proof
      assume e: "env w = []"
      from 1(2) show "\<exists>n ns. items (wq w) = n # ns \<and> is_set (event (wq w)) \<and> \<not> mutex (wq w) \<and>
     fst y = data n \<and> items (wq (snd y)) = ns \<and> env (snd y) = [] \<and> \<not> mutex (wq (snd y)) \<and>
     event (wq (snd y)) = (if ns = [] then event_reset (event (wq w)) else event (wq w)) \<and>
     calls (snd y) = calls w @ wait_removal n ns (signal_count (event (wq w)))"
      proof (cases rule: wait_body_cases)
        case (retry w1)
        note a = os_event_wait_alone [OF retry(1) e]
        from 1(1) [OF retry(4)] a retry(3) show ?thesis
          by simp
      next
        case (removal w1 n ns)
        note a = os_event_wait_alone [OF removal(1) e]
        with removal show ?thesis
          by simp
      qed
    qed
  next
    case 2
    show ?case by (fact assms(1))
  qed
  with assms(2) show ?thesis by blast
qed


lemma ib_wqueue_add_locked:
  "mutex (wq w) \<Longrightarrow> ib_wqueue_add item False w = None"
  by (simp add: ib_wqueue_add_def mysql_mutex_lock_def)

lemma removed_append [simp]: "removed (xs @ ys) = removed xs @ removed ys"
  by (induction xs) (auto split: call.splits)

lemma run_pop_alone:
  assumes "run_pop k w = Some (r, w1)" and "env w = []"
  shows "\<not> mutex (wq w) \<and> \<not> mutex (wq w1) \<and> env w1 = [] \<and>
     (case items (wq w) of
        [] \<Rightarrow> r = NULL \<and> items (wq w1) = [] \<and> removed (new_calls w w1) = []
      | n # ns \<Rightarrow> r = data n \<and> items (wq w1) = ns \<and> removed (new_calls w w1) = [n] \<and>
          (ns \<noteq> [] \<longrightarrow> event (wq w1) = event (wq w)))"
proof (cases k)
  case Wait
  with assms ib_wqueue_wait_alone [of w "(r, w1)"] show ?thesis
    by (auto simp: wait_removal_def)
next
  case (Timedwait t)
  with assms have m: "\<not> mutex (wq w)"
    by (auto simp: ib_wqueue_timedwait_locked)
  show ?thesis
  proof (cases "items (wq w)")
    case Nil
    with assms Timedwait m show ?thesis
      by (auto simp: ib_wqueue_timedwait_Nil_alone timedwait_round_def)
  next
    case (Cons n ns)
    with assms Timedwait m show ?thesis
      by (auto simp: ib_wqueue_timedwait_Cons timedwait_removal_def)
  qed
next
  case Nowait
  with assms have m: "\<not> mutex (wq w)"
    by (auto simp: ib_wqueue_nowait_locked)
  show ?thesis
  proof (cases "items (wq w)")
    case Nil
    with assms Nowait m show ?thesis
      by (auto simp: ib_wqueue_nowait_Nil)
  next
    case (Cons n ns)
    with assms Nowait m show ?thesis
      by (auto simp: ib_wqueue_nowait_Cons)
  qed
qed

lemma run_pop_delivers:
  assumes "run_pop k w = Some (r, w1)" and "env w = []"
  shows "map (\<lambda>n. r) (removed (new_calls w w1)) @ map data (items (wq w1)) = map data (items (wq w))"
  using run_pop_alone [OF assms] by (cases "items (wq w)") auto

lemma run_schedule_conserves:
  "env w = [] \<Longrightarrow> run_schedule ss w = Some (ds, w') \<Longrightarrow>
   map snd ds @ map data (items (wq w')) = map data (items (wq w)) @ pushed ss"
proof (induction ss w arbitrary: ds rule: run_schedule.induct)
  case (1 w)
  then show ?case by simp
next
  case (2 p ss w)
  from 2(3) obtain w1 where a: "ib_wqueue_add p False w = Some w1"
    and r: "run_schedule ss w1 = Some (ds, w')"
    by (auto split: Option.bind_splits)
  from a have m: "\<not> mutex (wq w)"
    by (auto simp: ib_wqueue_add_locked)
  with a have w1: "w1 = w\<lparr>wq := (wq w)\<lparr>items := items (wq w) @ [Node p],
                           event := event_set (event (wq w))\<rparr>,
             calls := calls w @ [Mutex_lock, List_add_last p, Event_set, Mutex_unlock]\<rparr>"
    by (simp add: ib_wqueue_add_eq)
  with 2(2) have "env w1 = []" by simp
  from 2(1) [OF a this r] w1 show ?case
    by simp
next
  case (3 i k ss w)
  from 3(3) obtain r w1 ds' where p: "run_pop k w = Some (r, w1)"
    and s: "run_schedule ss w1 = Some (ds', w')"
    and d: "ds = map (\<lambda>n. (i, r)) (removed (new_calls w w1)) @ ds'"
    by (auto split: Option.bind_splits)
  from run_pop_alone [OF p 3(2)] have e: "env w1 = []" by simp
  have "map snd ds' @ map data (items (wq w')) = map data (items (wq w1)) @ pushed ss"
    using 3(1) [OF p _ e s] by simp
  with run_pop_delivers [OF p 3(2)] d show ?case
    by (simp add: comp_def)
qed

lemma run_schedule_keeps_event:
  "env w = [] \<Longrightarrow> \<not> mutex (wq w) \<Longrightarrow> (items (wq w) \<noteq> [] \<longrightarrow> is_set (event (wq w))) \<Longrightarrow>
   run_schedule ss w = Some (ds, w') \<Longrightarrow>
   env w' = [] \<and> \<not> mutex (wq w') \<and> (items (wq w') \<noteq> [] \<longrightarrow> is_set (event (wq w')))"
proof (induction ss w arbitrary: ds rule: run_schedule.induct)
  case (1 w)
  then show ?case by simp
next
  case (2 p ss w)
  from 2(5) obtain w1 where a: "ib_wqueue_add p False w = Some w1"
    and r: "run_schedule ss w1 = Some (ds, w')"
    by (auto split: Option.bind_splits)
  from a 2(3) have w1: "w1 = w\<lparr>wq := (wq w)\<lparr>items := items (wq w) @ [Node p],
                           event := event_set (event (wq w))\<rparr>,
             calls := calls w @ [Mutex_lock, List_add_last p, Event_set, Mutex_unlock]\<rparr>"
    by (simp add: ib_wqueue_add_eq)
  with 2(2,3) have "env w1 = []" "\<not> mutex (wq w1)" "is_set (event (wq w1))"
    by (simp_all add: event_set_def)
  with 2(1) [OF a _ _ _ r] show ?case
    by simp
next
  case (3 i k ss w)
  from 3(5) obtain r w1 ds' where p: "run_pop k w = Some (r, w1)"
    and s: "run_schedule ss w1 = Some (ds', w')"
    by (auto split: Option.bind_splits)
  from run_pop_alone [OF p 3(2)] 3(4)
  have "env w1 = []" "\<not> mutex (wq w1)" "items (wq w1) \<noteq> [] \<longrightarrow> is_set (event (wq w1))"
    by (auto split: list.splits)
  with 3(1) [OF p _ _ _ _ s] show ?case
    by simp
qed

lemma run_schedule_drains:
  "\<not> mutex (wq w) \<Longrightarrow> env w = [] \<Longrightarrow> (items (wq w) \<noteq> [] \<longrightarrow> is_set (event (wq w))) \<Longrightarrow>
   length ks = length (items (wq w)) \<Longrightarrow>
   \<exists>ds w'. run_schedule (map (\<lambda>(i, k). Pop i k) ks) w = Some (ds, w') \<and>
     map snd ds = map data (items (wq w)) \<and> map fst ds = map fst ks \<and> items (wq w') = []"
proof (induction ks arbitrary: w)
  case Nil
  then show ?case by simp
next
  case (Cons ik ks)
  obtain i k where ik: "ik = (i, k)" by (cases ik)
  from Cons.prems obtain n ns where ns: "items (wq w) = n # ns"
    by (cases "items (wq w)") auto
  with Cons.prems have "is_set (event (wq w))" by simp
  from run_pop_head [OF Cons.prems(1,2) ns this, of k] obtain w1 where
    w1: "run_pop k w = Some (data n, w1)" "\<not> mutex (wq w1)" "env w1 = []"
      "items (wq w1) = ns" "ns \<noteq> [] \<longrightarrow> is_set (event (wq w1))"
    by auto
  from run_pop_alone [OF w1(1) Cons.prems(2)] ns have r: "removed (new_calls w w1) = [n]"
    by simp
  from Cons.prems ns w1 have "length ks = length (items (wq w1))" by simp
  from Cons.IH [OF w1(2,3) _ this] w1(4,5) obtain ds w' where
    "run_schedule (map (\<lambda>(i, k). Pop i k) ks) w1 = Some (ds, w')"
    "map snd ds = map data ns" "map fst ds = map fst ks" "items (wq w') = []"
    by auto
  with w1(1) r ns ik show ?case
    by simp
qed


subsection \<open>Adding an item\<close>

text \<open>
  C6. Unless the caller holds the mutex while saying it does not (then the call never
  returns), \<^verbatim>\<open>ib_wqueue_add\<close> appends the item at the tail of the list and sets the
  event. It locks the mutex before and unlocks it after exactly when \<open>wq_locked\<close> is
  false; when \<open>wq_locked\<close> is true it makes no call on the mutex. The mutex is left as it
  was found.
\<close>

theorem ib_wqueue_add_appends_sets_and_locks:
  assumes "wq_locked \<or> \<not> mutex (wq w)"
  shows "\<exists>w'. ib_wqueue_add item wq_locked w = Some w' \<and>
           items (wq w') = items (wq w) @ [Node item] \<and>
           is_set (event (wq w')) \<and>
           mutex (wq w') = mutex (wq w) \<and>
           env w' = env w \<and>
           calls w' = calls w @
             (if wq_locked then [List_add_last item, Event_set]
              else [Mutex_lock, List_add_last item, Event_set, Mutex_unlock])"
  using assms by (auto simp: ib_wqueue_add_eq event_set_def)

theorem ib_wqueue_add_appends_sets_and_locks_witness:
  "\<not> mutex (wq queue_one) \<and>
   (\<exists>w'. ib_wqueue_add 66 False queue_one = Some w' \<and>
      items (wq w') = [Node 65, Node 66] \<and> is_set (event (wq w')) \<and> \<not> mutex (wq w') \<and>
      calls w' = calls queue_one @ [Mutex_lock, List_add_last 66, Event_set, Mutex_unlock])"
proof -
  have h: "False \<or> \<not> mutex (wq queue_one)"
    by (simp add: queue_one_def)
  show ?thesis
    using h ib_wqueue_add_appends_sets_and_locks [OF h, of 66]
    by (auto simp: queue_one_def)
qed

subsection \<open>Taking an item without waiting\<close>

text \<open>
  C5, as the spec has it: on an empty list \<^verbatim>\<open>ib_wqueue_nowait\<close> would leave the event
  as it is. It does not: after \<^verbatim>\<open>ib_wqueue_timedwait\<close> has emptied the list the event
  is still set, and \<^verbatim>\<open>ib_wqueue_nowait\<close> then finds the list empty, removes nothing,
  returns \<open>NULL\<close> and resets the event.
\<close>

theorem ib_wqueue_nowait_empty_changes_event:
  "ib_wqueue_add 65 False queue_fresh = Some queue_one \<and>
   ib_wqueue_timedwait 50 queue_one = Some (65, queue_drained) \<and>
   items (wq queue_drained) = [] \<and>
   is_set (event (wq queue_drained)) \<and>
   ib_wqueue_nowait queue_drained =
     Some (NULL,
       \<lparr>wq = \<lparr>mutex = False, items = [], event = \<lparr>is_set = False, signal_count = 1\<rparr>\<rparr>,
        env = [],
        calls = calls queue_drained @
          [Mutex_lock, List_is_empty True, List_is_empty True, Event_reset 1, Mutex_unlock]\<rparr>)"
  by (simp add: add_queue_fresh timedwait_queue_one)
     (simp add: ib_wqueue_nowait_Nil queue_drained_def event_reset_def)

text \<open>
  C5, amended. Called without the mutex held, \<^verbatim>\<open>ib_wqueue_nowait\<close> locks the mutex.
  If the list is empty it leaves the list as it is, resets the event (the generation
  stays), unlocks and returns \<open>NULL\<close>. Otherwise it removes the first node, resets the
  event exactly if the list is now empty, unlocks and returns the data of the node.
\<close>

theorem ib_wqueue_nowait_removes_head_or_resets:
  assumes "\<not> mutex (wq w)"
  shows "\<exists>r w'. ib_wqueue_nowait w = Some (r, w') \<and>
           \<not> mutex (wq w') \<and> env w' = env w \<and>
           (case items (wq w) of
              [] \<Rightarrow>
                r = NULL \<and> items (wq w') = [] \<and>
                event (wq w') = event_reset (event (wq w)) \<and>
                calls w' = calls w @
                  [Mutex_lock, List_is_empty True, List_is_empty True,
                   Event_reset (signal_count (event (wq w))), Mutex_unlock]
            | n # ns \<Rightarrow>
                r = data n \<and> items (wq w') = ns \<and>
                event (wq w') =
                  (if ns = [] then event_reset (event (wq w)) else event (wq w)) \<and>
                calls w' = calls w @
                  [Mutex_lock, List_is_empty False, List_get_first (Some n), List_remove n,
                   List_is_empty (ns = [])] @
                  (if ns = [] then [Event_reset (signal_count (event (wq w)))] else []) @
                  [Mutex_unlock])"
proof (cases "items (wq w)")
  case Nil
  with assms show ?thesis
    by (simp add: ib_wqueue_nowait_Nil)
next
  case (Cons n ns)
  with assms show ?thesis
    by (simp add: ib_wqueue_nowait_Cons)
qed

theorem ib_wqueue_nowait_removes_head_or_resets_witness:
  "\<not> mutex (wq queue_one) \<and>
   (\<exists>w'. ib_wqueue_nowait queue_one = Some (65, w') \<and> items (wq w') = [] \<and>
      \<not> is_set (event (wq w')) \<and>
      calls w' = calls queue_one @
        [Mutex_lock, List_is_empty False, List_get_first (Some (Node 65)),
         List_remove (Node 65), List_is_empty True, Event_reset 1, Mutex_unlock]) \<and>
   \<not> mutex (wq queue_drained) \<and>
   (\<exists>w'. ib_wqueue_nowait queue_drained = Some (NULL, w') \<and> items (wq w') = [] \<and>
      \<not> is_set (event (wq w')) \<and>
      calls w' = calls queue_drained @
        [Mutex_lock, List_is_empty True, List_is_empty True, Event_reset 1, Mutex_unlock])"
proof -
  have h: "\<not> mutex (wq queue_one)" "\<not> mutex (wq queue_drained)"
    by (simp_all add: queue_one_def queue_drained_def)
  show ?thesis
    using h ib_wqueue_nowait_removes_head_or_resets [OF h(1)]
      ib_wqueue_nowait_removes_head_or_resets [OF h(2)]
    by (auto simp: queue_one_def queue_drained_def event_reset_def)
qed

subsection \<open>Taking an item with a timeout\<close>

text \<open>
  C10. When \<^verbatim>\<open>ib_wqueue_timedwait\<close>, called without the mutex held, finds a first
  node the first time it has locked the mutex, it removes the node, unlocks and returns
  the data of the node; it makes no call on the event, which is left as it was. So when
  the event was set and the node was the last one, the event stays set on a list that
  is now empty.
\<close>

theorem ib_wqueue_timedwait_head_leaves_event:
  assumes "\<not> mutex (wq w)" and "items (wq w) = n # ns"
  shows "\<exists>w'. ib_wqueue_timedwait t w = Some (data n, w') \<and>
           items (wq w') = ns \<and>
           event (wq w') = event (wq w) \<and>
           \<not> mutex (wq w') \<and> env w' = env w \<and>
           calls w' =
             calls w @ [Mutex_lock, List_get_first (Some n), List_remove n, Mutex_unlock] \<and>
           (if ns = [] \<and> is_set (event (wq w))
            then items (wq w') = [] \<and> is_set (event (wq w')) else True)"
  using assms by (simp add: ib_wqueue_timedwait_Cons timedwait_removal_def)

theorem ib_wqueue_timedwait_head_leaves_event_witness:
  "\<not> mutex (wq queue_one) \<and> items (wq queue_one) = [Node 65] \<and>
   is_set (event (wq queue_one)) \<and>
   (\<exists>w'. ib_wqueue_timedwait 50 queue_one = Some (65, w') \<and>
      items (wq w') = [] \<and> is_set (event (wq w')) \<and>
      calls w' = calls queue_drained)"
proof -
  have h: "\<not> mutex (wq queue_one)" "items (wq queue_one) = [Node 65]"
    by (simp_all add: queue_one_def)
  show ?thesis
    using h ib_wqueue_timedwait_head_leaves_event [OF h, of 50]
    by (auto simp: queue_one_def queue_drained_def)
qed

subsection \<open>A null item\<close>

text \<open>
  C9. When the data of the first node is the null pointer, \<^verbatim>\<open>ib_wqueue_timedwait\<close> and
  \<^verbatim>\<open>ib_wqueue_nowait\<close> remove the node and return \<open>NULL\<close>: the very value they return
  for an empty list (for \<^verbatim>\<open>ib_wqueue_timedwait\<close>, after the timeout with nobody else at
  work), where they remove nothing.
\<close>

theorem null_item_returned_like_empty_queue:
  assumes "\<not> mutex (wq w)" and "items (wq w) = Node NULL # ns"
    and "\<not> mutex (wq v)" and "items (wq v) = []" and "env v = []"
  shows "\<exists>w1 w2 v1 v2.
           ib_wqueue_timedwait t w = Some (NULL, w1) \<and> items (wq w1) = ns \<and>
           calls w1 = calls w @ timedwait_removal (Node NULL) \<and>
           ib_wqueue_nowait w = Some (NULL, w2) \<and> items (wq w2) = ns \<and>
           calls w2 = calls w @
             [Mutex_lock, List_is_empty False, List_get_first (Some (Node NULL)),
              List_remove (Node NULL), List_is_empty (ns = [])] @
             (if ns = [] then [Event_reset (signal_count (event (wq w)))] else []) @
             [Mutex_unlock] \<and>
           ib_wqueue_timedwait t v = Some (NULL, v1) \<and> items (wq v1) = [] \<and>
           calls v1 = calls v @
             timedwait_round t (signal_count (event (wq v))) OS_SYNC_TIME_EXCEEDED \<and>
           ib_wqueue_nowait v = Some (NULL, v2) \<and> items (wq v2) = [] \<and>
           calls v2 = calls v @
             [Mutex_lock, List_is_empty True, List_is_empty True,
              Event_reset (signal_count (event (wq v))), Mutex_unlock]"
  using assms
  by (simp add: ib_wqueue_timedwait_Cons ib_wqueue_nowait_Cons ib_wqueue_timedwait_Nil_alone
      ib_wqueue_nowait_Nil)

theorem null_item_returned_like_empty_queue_witness:
  "(\<exists>w1. ib_wqueue_timedwait 50 (queue_fresh\<lparr>wq := (wq queue_fresh)\<lparr>items := [Node NULL]\<rparr>\<rparr>) =
       Some (NULL, w1) \<and> items (wq w1) = []) \<and>
   (\<exists>w2. ib_wqueue_nowait (queue_fresh\<lparr>wq := (wq queue_fresh)\<lparr>items := [Node NULL]\<rparr>\<rparr>) =
       Some (NULL, w2) \<and> items (wq w2) = []) \<and>
   (\<exists>v1. ib_wqueue_timedwait 50 queue_fresh = Some (NULL, v1) \<and> items (wq v1) = []) \<and>
   (\<exists>v2. ib_wqueue_nowait queue_fresh = Some (NULL, v2) \<and> items (wq v2) = [])"
proof -
  let ?w = "queue_fresh\<lparr>wq := (wq queue_fresh)\<lparr>items := [Node NULL]\<rparr>\<rparr>"
  have h: "\<not> mutex (wq ?w)" "items (wq ?w) = Node NULL # []"
    "\<not> mutex (wq queue_fresh)" "items (wq queue_fresh) = []" "env queue_fresh = []"
    by (simp_all add: queue_fresh_def ib_wqueue_create_def)
  from null_item_returned_like_empty_queue [OF h, of 50] show ?thesis
    by blast
qed

subsection \<open>Length and emptiness\<close>

text \<open>
  C7. After \<^verbatim>\<open>ib_wqueue_add\<close>, \<^verbatim>\<open>ib_wqueue_len\<close> returns one more than before and
  \<^verbatim>\<open>ib_wqueue_is_empty\<close> returns false (a caller that holds the mutex for the push
  unlocks it before it asks). After any of the three functions that take an item has
  returned and left the list empty, \<^verbatim>\<open>ib_wqueue_len\<close> returns 0 and
  \<^verbatim>\<open>ib_wqueue_is_empty\<close> returns true. And on a new queue: push \<open>a\<close>, push \<open>b\<close>,
  length 2, \<^verbatim>\<open>ib_wqueue_nowait\<close> returns \<open>a\<close>, length 1, it returns \<open>b\<close>, length 0
  and empty, it returns \<open>NULL\<close>.
\<close>

theorem len_and_is_empty_after_push_and_pop:
  "(wq_locked \<or> \<not> mutex (wq w) \<longrightarrow>
      (\<exists>w1 v u u'. ib_wqueue_add item wq_locked w = Some w1 \<and>
         ib_wqueue_len (if wq_locked then mysql_mutex_unlock w else w) =
           Some (length (items (wq w)), v) \<and>
         ib_wqueue_len (if wq_locked then mysql_mutex_unlock w1 else w1) =
           Some (length (items (wq w)) + 1, u) \<and>
         ib_wqueue_is_empty (if wq_locked then mysql_mutex_unlock w1 else w1) =
           Some (False, u'))) \<and>
   (run_pop k w = Some (r, w') \<and> items (wq w') = [] \<longrightarrow>
      (\<exists>u u'. ib_wqueue_len w' = Some (0, u) \<and> ib_wqueue_is_empty w' = Some (True, u'))) \<and>
   do {
     w1 \<leftarrow> ib_wqueue_add a False queue_fresh;
     w2 \<leftarrow> ib_wqueue_add b False w1;
     (l2, w3) \<leftarrow> ib_wqueue_len w2;
     (x, w4) \<leftarrow> ib_wqueue_nowait w3;
     (l1, w5) \<leftarrow> ib_wqueue_len w4;
     (y, w6) \<leftarrow> ib_wqueue_nowait w5;
     (l0, w7) \<leftarrow> ib_wqueue_len w6;
     (e, w8) \<leftarrow> ib_wqueue_is_empty w7;
     (z, w9) \<leftarrow> ib_wqueue_nowait w8;
     Some (l2, x, l1, y, l0, e, z)
   } = Some (2, a, 1, b, 0, True, NULL)"
proof (intro conjI impI)
  assume "wq_locked \<or> \<not> mutex (wq w)"
  then show "\<exists>w1 v u u'. ib_wqueue_add item wq_locked w = Some w1 \<and>
         ib_wqueue_len (if wq_locked then mysql_mutex_unlock w else w) =
           Some (length (items (wq w)), v) \<and>
         ib_wqueue_len (if wq_locked then mysql_mutex_unlock w1 else w1) =
           Some (length (items (wq w)) + 1, u) \<and>
         ib_wqueue_is_empty (if wq_locked then mysql_mutex_unlock w1 else w1) =
           Some (False, u')"
    by (cases wq_locked)
       (simp_all add: ib_wqueue_add_eq ib_wqueue_len_eq ib_wqueue_is_empty_eq
          mysql_mutex_unlock_def record_call_def)
next
  assume "run_pop k w = Some (r, w') \<and> items (wq w') = []"
  then have "\<not> mutex (wq w')" and "items (wq w') = []"
    by (auto dest: run_pop_unlocked)
  then show "\<exists>u u'. ib_wqueue_len w' = Some (0, u) \<and> ib_wqueue_is_empty w' = Some (True, u')"
    by (simp add: ib_wqueue_len_eq ib_wqueue_is_empty_eq)
next
  show "do {
     w1 \<leftarrow> ib_wqueue_add a False queue_fresh;
     w2 \<leftarrow> ib_wqueue_add b False w1;
     (l2, w3) \<leftarrow> ib_wqueue_len w2;
     (x, w4) \<leftarrow> ib_wqueue_nowait w3;
     (l1, w5) \<leftarrow> ib_wqueue_len w4;
     (y, w6) \<leftarrow> ib_wqueue_nowait w5;
     (l0, w7) \<leftarrow> ib_wqueue_len w6;
     (e, w8) \<leftarrow> ib_wqueue_is_empty w7;
     (z, w9) \<leftarrow> ib_wqueue_nowait w8;
     Some (l2, x, l1, y, l0, e, z)
   } = Some (2, a, 1, b, 0, True, NULL)"
    by (simp add: queue_fresh_def ib_wqueue_create_def ib_wqueue_add_eq ib_wqueue_len_eq
        ib_wqueue_is_empty_eq ib_wqueue_nowait_eq)
qed

theorem len_and_is_empty_after_push_and_pop_witness:
  "\<not> mutex (wq queue_one) \<and>
   (\<exists>w1. ib_wqueue_add 66 False queue_one = Some w1 \<and>
      (\<exists>v. ib_wqueue_len queue_one = Some (1, v)) \<and>
      (\<exists>u. ib_wqueue_len w1 = Some (2, u)) \<and>
      (\<exists>u'. ib_wqueue_is_empty w1 = Some (False, u'))) \<and>
   run_pop (Timedwait 50) queue_one = Some (65, queue_drained) \<and>
   items (wq queue_drained) = [] \<and>
   (\<exists>u u'. ib_wqueue_len queue_drained = Some (0, u) \<and>
      ib_wqueue_is_empty queue_drained = Some (True, u'))"
proof -
  have h: "False \<or> \<not> mutex (wq queue_one)"
    by (simp add: queue_one_def)
  have p: "run_pop (Timedwait 50) queue_one = Some (65, queue_drained) \<and>
      items (wq queue_drained) = []"
    by (simp add: timedwait_queue_one) (simp add: queue_drained_def)
  have l: "length (items (wq queue_one)) = 1"
    by (simp add: queue_one_def)
  from len_and_is_empty_after_push_and_pop
    [where wq_locked = False and w = queue_one and item = 66 and k = "Timedwait 50"
       and r = 65 and w' = queue_drained and a = 65 and b = 66]
  show ?thesis
    using h p l by (auto simp: numeral_2_eq_2)
qed

subsection \<open>The timed wait and the event\<close>

text \<open>
  C2, as the spec has it: \<^verbatim>\<open>ib_wqueue_timedwait\<close> would not reset the event on the
  path that ends in a timeout, but only where a removal empties the list. It does the
  opposite. On the empty list that its own removal has left with the event set, and
  with nobody else at work, it finds no node, resets the event, waits, runs into the
  timeout and returns \<open>NULL\<close>: the event has gone from set to clear and nothing was
  removed.
\<close>

theorem ib_wqueue_timedwait_timeout_resets_event:
  "ib_wqueue_add 65 False queue_fresh = Some queue_one \<and>
   ib_wqueue_timedwait 50 queue_one = Some (65, queue_drained) \<and>
   items (wq queue_drained) = [] \<and>
   is_set (event (wq queue_drained)) \<and>
   ib_wqueue_timedwait 50 queue_drained =
     Some (NULL,
       \<lparr>wq = \<lparr>mutex = False, items = [], event = \<lparr>is_set = False, signal_count = 1\<rparr>\<rparr>,
        env = [],
        calls = calls queue_drained @
          [Mutex_lock, List_get_first None, Event_reset 1, Mutex_unlock,
           Event_wait_time 50 1 OS_SYNC_TIME_EXCEEDED]\<rparr>)"
  by (simp add: add_queue_fresh timedwait_queue_one)
     (simp add: ib_wqueue_timedwait_Nil_alone queue_drained_def event_reset_def
        timedwait_round_def)

text \<open>
  C2, amended. Whenever \<^verbatim>\<open>ib_wqueue_timedwait\<close>, called without the mutex held,
  finds the list empty, it resets the event, which also captures the generation \<open>c\<close>,
  unlocks the mutex and waits for the timeout or a signal with that generation. When
  the wait runs into the timeout it returns \<open>NULL\<close>, the event being clear and its
  generation still \<open>c\<close>; when the wait is signalled it goes on as it does from the view
  the wait has left: it checks the list again under the mutex. And whenever it returns,
  its calls are such rounds, each ended by a signal, then either one more that ran into
  the timeout or the round that removes a node and returns its data: every reset is
  made on finding the list empty, before the wait.
\<close>

theorem ib_wqueue_timedwait_resets_when_empty:
  "(\<not> mutex (wq w) \<and> items (wq w) = [] \<and>
    \<not> seen_signal (signal_count (event (wq w))) (first_stretch w)
         ((wq w)\<lparr>event := event_reset (event (wq w))\<rparr>) \<longrightarrow>
      ib_wqueue_timedwait t w = Some (NULL, timedwait_slept t OS_SYNC_TIME_EXCEEDED w) \<and>
      calls (timedwait_slept t OS_SYNC_TIME_EXCEEDED w) =
        calls w @ timedwait_round t (signal_count (event (wq w))) OS_SYNC_TIME_EXCEEDED \<and>
      \<not> is_set (event (wq (timedwait_slept t OS_SYNC_TIME_EXCEEDED w))) \<and>
      signal_count (event (wq (timedwait_slept t OS_SYNC_TIME_EXCEEDED w))) =
        signal_count (event (wq w))) \<and>
   (\<not> mutex (wq w) \<and> items (wq w) = [] \<and>
    seen_signal (signal_count (event (wq w))) (first_stretch w)
         ((wq w)\<lparr>event := event_reset (event (wq w))\<rparr>) \<longrightarrow>
      ib_wqueue_timedwait t w = ib_wqueue_timedwait t (timedwait_slept t OS_SYNC_SIGNALLED w) \<and>
      calls (timedwait_slept t OS_SYNC_SIGNALLED w) =
        calls w @ timedwait_round t (signal_count (event (wq w))) OS_SYNC_SIGNALLED) \<and>
   (ib_wqueue_timedwait t w = Some (r, w') \<longrightarrow>
      (\<exists>cs fin. calls w' =
           calls w @ concat (map (\<lambda>c. timedwait_round t c OS_SYNC_SIGNALLED) cs) @ fin \<and>
         ((\<exists>n. fin = timedwait_removal n \<and> r = data n) \<or>
          (\<exists>c. fin = timedwait_round t c OS_SYNC_TIME_EXCEEDED \<and> r = NULL \<and>
               \<not> is_set (event (wq w')) \<and> signal_count (event (wq w')) = c))))"
proof -
  let ?c = "signal_count (event (wq w))"
  let ?q = "(wq w)\<lparr>event := event_reset (event (wq w))\<rparr>"
  have p1: "\<not> mutex (wq w) \<and> items (wq w) = [] \<and> \<not> seen_signal ?c (first_stretch w) ?q \<longrightarrow>
      ib_wqueue_timedwait t w = Some (NULL, timedwait_slept t OS_SYNC_TIME_EXCEEDED w) \<and>
      calls (timedwait_slept t OS_SYNC_TIME_EXCEEDED w) =
        calls w @ timedwait_round t ?c OS_SYNC_TIME_EXCEEDED \<and>
      \<not> is_set (event (wq (timedwait_slept t OS_SYNC_TIME_EXCEEDED w))) \<and>
      signal_count (event (wq (timedwait_slept t OS_SYNC_TIME_EXCEEDED w))) = ?c"
  proof
    assume a: "\<not> mutex (wq w) \<and> items (wq w) = [] \<and> \<not> seen_signal ?c (first_stretch w) ?q"
    then have "ib_wqueue_timedwait t w = Some (NULL, timedwait_slept t OS_SYNC_TIME_EXCEEDED w)"
      by (simp add: ib_wqueue_timedwait_Nil_timeout)
    moreover from a not_seen_signal [of ?c "first_stretch w" ?q]
    have "\<not> is_set (event (wq (timedwait_slept t OS_SYNC_TIME_EXCEEDED w))) \<and>
      signal_count (event (wq (timedwait_slept t OS_SYNC_TIME_EXCEEDED w))) = ?c"
      by (simp add: timedwait_slept_def)
    ultimately show "ib_wqueue_timedwait t w =
        Some (NULL, timedwait_slept t OS_SYNC_TIME_EXCEEDED w) \<and>
      calls (timedwait_slept t OS_SYNC_TIME_EXCEEDED w) =
        calls w @ timedwait_round t ?c OS_SYNC_TIME_EXCEEDED \<and>
      \<not> is_set (event (wq (timedwait_slept t OS_SYNC_TIME_EXCEEDED w))) \<and>
      signal_count (event (wq (timedwait_slept t OS_SYNC_TIME_EXCEEDED w))) = ?c"
      by (simp add: timedwait_slept_def)
  qed
  have p2: "\<not> mutex (wq w) \<and> items (wq w) = [] \<and> seen_signal ?c (first_stretch w) ?q \<longrightarrow>
      ib_wqueue_timedwait t w = ib_wqueue_timedwait t (timedwait_slept t OS_SYNC_SIGNALLED w) \<and>
      calls (timedwait_slept t OS_SYNC_SIGNALLED w) =
        calls w @ timedwait_round t ?c OS_SYNC_SIGNALLED"
  proof -
    have "calls (timedwait_slept t OS_SYNC_SIGNALLED w) =
        calls w @ timedwait_round t ?c OS_SYNC_SIGNALLED"
      by (simp add: timedwait_slept_def)
    with ib_wqueue_timedwait_Nil_signalled [of w t] show ?thesis
      by blast
  qed
  have p3: "ib_wqueue_timedwait t w = Some (r, w') \<longrightarrow>
      (\<exists>cs fin. calls w' =
           calls w @ concat (map (\<lambda>c. timedwait_round t c OS_SYNC_SIGNALLED) cs) @ fin \<and>
         ((\<exists>n. fin = timedwait_removal n \<and> r = data n) \<or>
          (\<exists>c. fin = timedwait_round t c OS_SYNC_TIME_EXCEEDED \<and> r = NULL \<and>
               \<not> is_set (event (wq w')) \<and> signal_count (event (wq w')) = c)))"
  proof
    assume a: "ib_wqueue_timedwait t w = Some (r, w')"
    then have "\<not> mutex (wq w)"
      by (auto simp: ib_wqueue_timedwait_locked)
    from ib_wqueue_timedwait_rounds [OF this, of t] a
    show "\<exists>cs fin. calls w' =
           calls w @ concat (map (\<lambda>c. timedwait_round t c OS_SYNC_SIGNALLED) cs) @ fin \<and>
         ((\<exists>n. fin = timedwait_removal n \<and> r = data n) \<or>
          (\<exists>c. fin = timedwait_round t c OS_SYNC_TIME_EXCEEDED \<and> r = NULL \<and>
               \<not> is_set (event (wq w')) \<and> signal_count (event (wq w')) = c))"
      by auto
  qed
  from p1 p2 p3 show ?thesis
    by (intro conjI)
qed


theorem ib_wqueue_timedwait_resets_when_empty_witness:
  "ib_wqueue_timedwait 50 queue_drained =
     Some (NULL, timedwait_slept 50 OS_SYNC_TIME_EXCEEDED queue_drained) \<and>
   calls (timedwait_slept 50 OS_SYNC_TIME_EXCEEDED queue_drained) =
     calls queue_drained @ timedwait_round 50 1 OS_SYNC_TIME_EXCEEDED \<and>
   is_set (event (wq queue_drained)) \<and>
   \<not> is_set (event (wq (timedwait_slept 50 OS_SYNC_TIME_EXCEEDED queue_drained))) \<and>
   ib_wqueue_timedwait 10 queue_signalled =
     ib_wqueue_timedwait 10 (timedwait_slept 10 OS_SYNC_SIGNALLED queue_signalled) \<and>
   items (wq (timedwait_slept 10 OS_SYNC_SIGNALLED queue_signalled)) = [Node 7] \<and>
   (\<exists>w'. ib_wqueue_timedwait 10 queue_signalled = Some (7, w') \<and>
      calls w' = timedwait_round 10 0 OS_SYNC_SIGNALLED @ timedwait_removal (Node 7))"
proof -
  let ?w' = "\<lparr>wq = \<lparr>mutex = False, items = [], event = \<lparr>is_set = True, signal_count = 1\<rparr>\<rparr>,
              env = [],
              calls = timedwait_round 10 0 OS_SYNC_SIGNALLED @ timedwait_removal (Node 7)\<rparr>"
  have d: "\<not> mutex (wq queue_drained) \<and> items (wq queue_drained) = [] \<and>
      \<not> seen_signal (signal_count (event (wq queue_drained))) (first_stretch queue_drained)
         ((wq queue_drained)\<lparr>event := event_reset (event (wq queue_drained))\<rparr>)"
    by (simp add: queue_drained_def first_stretch_def event_reset_def)
  have s: "\<not> mutex (wq queue_signalled) \<and> items (wq queue_signalled) = [] \<and>
      seen_signal (signal_count (event (wq queue_signalled))) (first_stretch queue_signalled)
         ((wq queue_signalled)\<lparr>event := event_reset (event (wq queue_signalled))\<rparr>)"
    by (simp add: queue_signalled_def queue_fresh_def ib_wqueue_create_def first_stretch_def
        event_reset_def event_set_def)
  have e: "ib_wqueue_timedwait 10 queue_signalled = Some (7, ?w')"
    by code_simp
  note t1 = ib_wqueue_timedwait_resets_when_empty [where w = queue_drained and t = 50]
  note t2 = ib_wqueue_timedwait_resets_when_empty
    [where w = queue_signalled and t = 10 and r = 7 and w' = ?w']
  from t1 d have 1: "ib_wqueue_timedwait 50 queue_drained =
      Some (NULL, timedwait_slept 50 OS_SYNC_TIME_EXCEEDED queue_drained) \<and>
    calls (timedwait_slept 50 OS_SYNC_TIME_EXCEEDED queue_drained) =
      calls queue_drained @
        timedwait_round 50 (signal_count (event (wq queue_drained))) OS_SYNC_TIME_EXCEEDED \<and>
    \<not> is_set (event (wq (timedwait_slept 50 OS_SYNC_TIME_EXCEEDED queue_drained)))"
    by blast
  from t2 s have 2: "ib_wqueue_timedwait 10 queue_signalled =
      ib_wqueue_timedwait 10 (timedwait_slept 10 OS_SYNC_SIGNALLED queue_signalled)"
    by blast
  have 3: "items (wq (timedwait_slept 10 OS_SYNC_SIGNALLED queue_signalled)) = [Node 7]"
    "is_set (event (wq queue_drained))" "signal_count (event (wq queue_drained)) = 1"
    by (simp_all add: timedwait_slept_def queue_signalled_def queue_fresh_def
        ib_wqueue_create_def first_stretch_def queue_drained_def)
  have 4: "\<exists>w'. ib_wqueue_timedwait 10 queue_signalled = Some (7, w') \<and>
      calls w' = timedwait_round 10 0 OS_SYNC_SIGNALLED @ timedwait_removal (Node 7)"
    using e by simp
  from 1 2 3 4 show ?thesis
    by simp
qed


subsection \<open>The wait without a timeout\<close>

text \<open>
  C3. Whenever \<^verbatim>\<open>ib_wqueue_wait\<close> returns, its calls are: some rounds that waited for
  the event, locked the mutex, found no node and unlocked the mutex again; then one round
  that waited, locked, found the node \<open>n\<close>, removed it, looked for a node again, reset
  the event exactly when there was none left, and unlocked. The value returned is the
  data of the node \<open>n\<close> this call has removed, and when the list is left empty the event
  is clear. With the event set, a first node in the list and nobody else at work, it
  returns that node's data at once. And round by round, from every view: while the wait
  for the event does not end, the function does not return; when the wait has ended and
  the list has no first node, it unlocks the mutex and goes on as it does from the view
  so reached, that is, it waits again; when the list has a first node, it removes it,
  resets the event exactly if no node is left, unlocks and returns the data of the node.
\<close>

theorem ib_wqueue_wait_returns_what_it_removed:
  "(ib_wqueue_wait w = Some (item, w') \<longrightarrow>
      (\<exists>k n. calls w' = calls w @ concat (replicate k wait_retry) @
                 wait_removal n (items (wq w')) (signal_count (event (wq w'))) \<and>
         item = data n \<and> \<not> mutex (wq w') \<and>
         (items (wq w') = [] \<longrightarrow> \<not> is_set (event (wq w'))))) \<and>
   (\<not> mutex (wq w) \<and> items (wq w) = m # ms \<and> is_set (event (wq w)) \<and> env w = [] \<longrightarrow>
      (\<exists>w1. ib_wqueue_wait w = Some (data m, w1) \<and> items (wq w1) = ms \<and>
         calls w1 = calls w @ wait_removal m ms (signal_count (event (wq w))))) \<and>
   (os_event_wait w = None \<longrightarrow> ib_wqueue_wait w = None) \<and>
   (os_event_wait w = Some v \<and> \<not> mutex (wq v) \<and> items (wq v) = [] \<longrightarrow>
      ib_wqueue_wait w = ib_wqueue_wait (v\<lparr>calls := calls w @ wait_retry\<rparr>)) \<and>
   (os_event_wait w = Some v \<and> \<not> mutex (wq v) \<and> items (wq v) = n # ns \<longrightarrow>
      ib_wqueue_wait w =
        Some (data n, v\<lparr>wq := (wq v)\<lparr>items := ns,
                  event := (if ns = [] then event_reset (event (wq v)) else event (wq v))\<rparr>,
                calls := calls w @ wait_removal n ns (signal_count (event (wq v)))\<rparr>))"
proof -
  have p1: "ib_wqueue_wait w = Some (item, w') \<longrightarrow>
      (\<exists>k n. calls w' = calls w @ concat (replicate k wait_retry) @
                 wait_removal n (items (wq w')) (signal_count (event (wq w'))) \<and>
         item = data n \<and> \<not> mutex (wq w') \<and>
         (items (wq w') = [] \<longrightarrow> \<not> is_set (event (wq w'))))"
  proof
    assume "ib_wqueue_wait w = Some (item, w')"
    from ib_wqueue_wait_rounds [OF this]
    show "\<exists>k n. calls w' = calls w @ concat (replicate k wait_retry) @
                 wait_removal n (items (wq w')) (signal_count (event (wq w'))) \<and>
         item = data n \<and> \<not> mutex (wq w') \<and>
         (items (wq w') = [] \<longrightarrow> \<not> is_set (event (wq w')))"
      by simp
  qed
  have p2: "\<not> mutex (wq w) \<and> items (wq w) = m # ms \<and> is_set (event (wq w)) \<and> env w = [] \<longrightarrow>
      (\<exists>w1. ib_wqueue_wait w = Some (data m, w1) \<and> items (wq w1) = ms \<and>
         calls w1 = calls w @ wait_removal m ms (signal_count (event (wq w))))"
    by (simp add: ib_wqueue_wait_ready)
  have p3: "os_event_wait w = None \<longrightarrow> ib_wqueue_wait w = None"
    by (simp add: ib_wqueue_wait_blocked)
  have p4: "os_event_wait w = Some v \<and> \<not> mutex (wq v) \<and> items (wq v) = [] \<longrightarrow>
      ib_wqueue_wait w = ib_wqueue_wait (v\<lparr>calls := calls w @ wait_retry\<rparr>)"
    using ib_wqueue_wait_retry [of w v] by blast
  have p5: "os_event_wait w = Some v \<and> \<not> mutex (wq v) \<and> items (wq v) = n # ns \<longrightarrow>
      ib_wqueue_wait w =
        Some (data n, v\<lparr>wq := (wq v)\<lparr>items := ns,
                  event := (if ns = [] then event_reset (event (wq v)) else event (wq v))\<rparr>,
                calls := calls w @ wait_removal n ns (signal_count (event (wq v)))\<rparr>)"
    using ib_wqueue_wait_removal [of w v n ns] by blast
  from p1 p2 p3 p4 p5 show ?thesis
    by (intro conjI)
qed

theorem ib_wqueue_wait_returns_what_it_removed_witness:
  "(\<exists>w'. ib_wqueue_wait queue_raced_twice = Some (7, w') \<and>
      calls w' = wait_retry @ wait_retry @ wait_removal (Node 7) [] 2 \<and>
      items (wq w') = [] \<and> \<not> is_set (event (wq w'))) \<and>
   os_event_wait queue_fresh = None \<and> ib_wqueue_wait queue_fresh = None \<and>
   (\<exists>v. os_event_wait queue_raced_twice = Some v \<and> \<not> mutex (wq v) \<and> items (wq v) = [] \<and>
      ib_wqueue_wait queue_raced_twice = ib_wqueue_wait (v\<lparr>calls := wait_retry\<rparr>)) \<and>
   (\<exists>v. os_event_wait queue_one = Some v \<and> \<not> mutex (wq v) \<and> items (wq v) = [Node 65] \<and>
      ib_wqueue_wait queue_one =
        Some (65, v\<lparr>wq := (wq v)\<lparr>items := [], event := event_reset (event (wq v))\<rparr>,
                    calls := calls queue_one @ wait_removal (Node 65) [] 1\<rparr>)) \<and>
   \<not> mutex (wq queue_one) \<and> items (wq queue_one) = [Node 65] \<and>
   is_set (event (wq queue_one)) \<and> env queue_one = [] \<and>
   (\<exists>w1. ib_wqueue_wait queue_one = Some (65, w1) \<and> items (wq w1) = [] \<and>
      calls w1 = calls queue_one @ wait_removal (Node 65) [] 1)"
proof -
  let ?w' = "\<lparr>wq = \<lparr>mutex = False, items = [], event = \<lparr>is_set = False, signal_count = 2\<rparr>\<rparr>,
              env = [],
              calls = wait_retry @ wait_retry @ wait_removal (Node 7) [] 2\<rparr>"
  let ?v = "\<lparr>wq = \<lparr>mutex = False, items = [], event = \<lparr>is_set = True, signal_count = 1\<rparr>\<rparr>,
             env = [[], [Other_add_last 7, Other_set]],
             calls = [Event_wait]\<rparr>"
  let ?u = "queue_one\<lparr>calls := calls queue_one @ [Event_wait]\<rparr>"
  have e: "ib_wqueue_wait queue_raced_twice = Some (7, ?w')"
    by code_simp
  have b: "os_event_wait queue_fresh = None"
    by (simp add: os_event_wait_def queue_fresh_def ib_wqueue_create_def)
  have r: "os_event_wait queue_raced_twice = Some ?v \<and> \<not> mutex (wq ?v) \<and> items (wq ?v) = []"
    by (simp add: os_event_wait_def queue_raced_twice_def queue_fresh_def ib_wqueue_create_def
        event_set_def record_call_def)
  have m: "os_event_wait queue_one = Some ?u \<and> \<not> mutex (wq ?u) \<and>
      items (wq ?u) = Node 65 # []"
    by (simp add: os_event_wait_def queue_one_def record_call_def)
  have h: "\<not> mutex (wq queue_one) \<and> items (wq queue_one) = Node 65 # [] \<and>
      is_set (event (wq queue_one)) \<and> env queue_one = []"
    by (simp add: queue_one_def)
  note t1 = ib_wqueue_wait_returns_what_it_removed
    [where w = queue_raced_twice and item = 7 and w' = ?w' and v = ?v]
  note t2 = ib_wqueue_wait_returns_what_it_removed [where w = queue_fresh]
  note t3 = ib_wqueue_wait_returns_what_it_removed
    [where w = queue_one and m = "Node 65" and ms = "[]" and v = ?u and n = "Node 65"
       and ns = "[]"]
  from t1 e have 1: "\<not> is_set (event (wq ?w'))"
    by simp
  from t1 r have 2: "ib_wqueue_wait queue_raced_twice =
      ib_wqueue_wait (?v\<lparr>calls := calls queue_raced_twice @ wait_retry\<rparr>)"
    by blast
  from t2 b have 3: "ib_wqueue_wait queue_fresh = None"
    by blast
  from t3 m have 4: "ib_wqueue_wait queue_one =
      Some (data (Node 65), ?u\<lparr>wq := (wq ?u)\<lparr>items := [],
                  event := (if [] = ([] :: ib_list_t) then event_reset (event (wq ?u))
                            else event (wq ?u))\<rparr>,
                calls := calls queue_one @
                  wait_removal (Node 65) [] (signal_count (event (wq ?u)))\<rparr>)"
    by blast
  from t3 h have 5: "\<exists>w1. ib_wqueue_wait queue_one = Some (data (Node 65), w1) \<and>
      items (wq w1) = [] \<and>
      calls w1 = calls queue_one @ wait_removal (Node 65) [] (signal_count (event (wq queue_one)))"
    by blast
  have c: "calls queue_raced_twice = []" "signal_count (event (wq queue_one)) = 1"
    by (simp_all add: queue_raced_twice_def queue_fresh_def queue_one_def)
  from 5 c have f5: "\<exists>w1. ib_wqueue_wait queue_one = Some (65, w1) \<and> items (wq w1) = [] \<and>
      calls w1 = calls queue_one @ wait_removal (Node 65) [] 1"
    by simp
  from 4 have f4: "ib_wqueue_wait queue_one =
      Some (65, ?u\<lparr>wq := (wq ?u)\<lparr>items := [], event := event_reset (event (wq ?u))\<rparr>,
                  calls := calls queue_one @ wait_removal (Node 65) [] 1\<rparr>)"
    by (simp add: queue_one_def)
  from 2 c have f2: "ib_wqueue_wait queue_raced_twice = ib_wqueue_wait (?v\<lparr>calls := wait_retry\<rparr>)"
    by simp
  have A: "\<exists>w'. ib_wqueue_wait queue_raced_twice = Some (7, w') \<and>
      calls w' = wait_retry @ wait_retry @ wait_removal (Node 7) [] 2 \<and>
      items (wq w') = [] \<and> \<not> is_set (event (wq w'))"
    using e 1 by simp
  have B: "\<exists>v. os_event_wait queue_raced_twice = Some v \<and> \<not> mutex (wq v) \<and> items (wq v) = [] \<and>
      ib_wqueue_wait queue_raced_twice = ib_wqueue_wait (v\<lparr>calls := wait_retry\<rparr>)"
    using r f2 by blast
  have C: "\<exists>v. os_event_wait queue_one = Some v \<and> \<not> mutex (wq v) \<and> items (wq v) = [Node 65] \<and>
      ib_wqueue_wait queue_one =
        Some (65, v\<lparr>wq := (wq v)\<lparr>items := [], event := event_reset (event (wq v))\<rparr>,
                    calls := calls queue_one @ wait_removal (Node 65) [] 1\<rparr>)"
    using m f4 by blast
  from A b 3 B C h f5 show ?thesis
    by simp
qed

subsection \<open>Who resets the event, and when\<close>

text \<open>
  C1, as the spec has it: the event would be reset only by a function whose own removal
  of an item has emptied the list. A thread alone with a new queue reaches a view where
  this fails: it pushes an item and takes it back with \<^verbatim>\<open>ib_wqueue_timedwait\<close>, which
  leaves the event set on the empty list; \<^verbatim>\<open>ib_wqueue_nowait\<close> then resets the event,
  from set to clear, having removed nothing.
\<close>

theorem ib_wqueue_nowait_resets_without_removal:
  "ib_wqueue_add 65 False queue_fresh = Some queue_one \<and>
   ib_wqueue_timedwait 50 queue_one = Some (65, queue_drained) \<and>
   items (wq queue_drained) = [] \<and>
   is_set (event (wq queue_drained)) \<and>
   ib_wqueue_nowait queue_drained = Some (NULL, queue_cleared) \<and>
   \<not> is_set (event (wq queue_cleared)) \<and>
   new_calls queue_drained queue_cleared =
     [Mutex_lock, List_is_empty True, List_is_empty True, Event_reset 1, Mutex_unlock] \<and>
   \<not> resets_follow_removal (new_calls queue_drained queue_cleared)"
  by (simp add: add_queue_fresh timedwait_queue_one nowait_queue_drained)
     (simp add: queue_drained_def queue_cleared_def new_calls_def resets_follow_removal_def
        is_reset_def is_remove_def saw_empty_def)

text \<open>
  C1, amended. \<^verbatim>\<open>ib_wqueue_add\<close> never resets the event. Each of the three functions
  that take an item resets the event only directly after it has found the list empty,
  with the mutex held: \<^verbatim>\<open>ib_wqueue_wait\<close> only when that was directly after its own
  removal of a node, whereas \<^verbatim>\<open>ib_wqueue_timedwait\<close> and \<^verbatim>\<open>ib_wqueue_nowait\<close> may
  have removed nothing.
\<close>

theorem event_reset_only_after_list_seen_empty:
  "(wq_locked \<or> \<not> mutex (wq w) \<longrightarrow>
      (\<exists>w1. ib_wqueue_add item wq_locked w = Some w1 \<and>
         calls w1 = calls w @ new_calls w w1 \<and> no_reset (new_calls w w1))) \<and>
   (ib_wqueue_wait w = Some (r, w') \<longrightarrow>
      calls w' = calls w @ new_calls w w' \<and> resets_follow_removal (new_calls w w')) \<and>
   (\<not> mutex (wq w) \<longrightarrow>
      (\<exists>r2 w2. ib_wqueue_timedwait t w = Some (r2, w2) \<and>
         calls w2 = calls w @ new_calls w w2 \<and> resets_guarded (new_calls w w2))) \<and>
   (\<not> mutex (wq w) \<longrightarrow>
      (\<exists>r3 w3. ib_wqueue_nowait w = Some (r3, w3) \<and>
         calls w3 = calls w @ new_calls w w3 \<and> resets_guarded (new_calls w w3)))"
proof -
  have p1: "wq_locked \<or> \<not> mutex (wq w) \<longrightarrow>
      (\<exists>w1. ib_wqueue_add item wq_locked w = Some w1 \<and>
         calls w1 = calls w @ new_calls w w1 \<and> no_reset (new_calls w w1))"
    by (auto simp: ib_wqueue_add_eq new_calls_def no_reset_def is_reset_def)
  have p2: "ib_wqueue_wait w = Some (r, w') \<longrightarrow>
      calls w' = calls w @ new_calls w w' \<and> resets_follow_removal (new_calls w w')"
  proof
    assume "ib_wqueue_wait w = Some (r, w')"
    from ib_wqueue_wait_rounds [OF this] obtain k n where
      "calls w' = calls w @ concat (replicate k wait_retry) @
         wait_removal n (items (wq w')) (signal_count (event (wq w')))"
      by auto
    then show "calls w' = calls w @ new_calls w w' \<and> resets_follow_removal (new_calls w w')"
      by (simp add: resets_follow_removal_wait)
  qed
  have p3: "\<not> mutex (wq w) \<longrightarrow>
      (\<exists>r2 w2. ib_wqueue_timedwait t w = Some (r2, w2) \<and>
         calls w2 = calls w @ new_calls w w2 \<and> resets_guarded (new_calls w w2))"
  proof
    assume "\<not> mutex (wq w)"
    from ib_wqueue_timedwait_rounds [OF this, of t] obtain r2 w2 cs fin where
      a: "ib_wqueue_timedwait t w = Some (r2, w2)"
      and b: "calls w2 =
        calls w @ concat (map (\<lambda>c. timedwait_round t c OS_SYNC_SIGNALLED) cs) @ fin"
      and c: "(\<exists>n. fin = timedwait_removal n) \<or>
        (\<exists>c. fin = timedwait_round t c OS_SYNC_TIME_EXCEEDED)"
      by blast
    from c have
      "resets_guarded (concat (map (\<lambda>c. timedwait_round t c OS_SYNC_SIGNALLED) cs) @ fin)"
      by (auto simp: resets_guarded_timedwait)
    with a b show "\<exists>r2 w2. ib_wqueue_timedwait t w = Some (r2, w2) \<and>
         calls w2 = calls w @ new_calls w w2 \<and> resets_guarded (new_calls w w2)"
      by simp
  qed
  have p4: "\<not> mutex (wq w) \<longrightarrow>
      (\<exists>r3 w3. ib_wqueue_nowait w = Some (r3, w3) \<and>
         calls w3 = calls w @ new_calls w w3 \<and> resets_guarded (new_calls w w3))"
    by (cases "items (wq w)")
       (auto simp: ib_wqueue_nowait_Nil ib_wqueue_nowait_Cons new_calls_def resets_guarded_def
          is_reset_def saw_empty_def holds_after_def)
  from p1 p2 p3 p4 show ?thesis
    by (intro conjI)
qed

theorem event_reset_only_after_list_seen_empty_witness:
  "\<not> mutex (wq queue_one) \<and>
   (\<exists>w1. ib_wqueue_add 66 False queue_one = Some w1 \<and>
      new_calls queue_one w1 = [Mutex_lock, List_add_last 66, Event_set, Mutex_unlock] \<and>
      no_reset (new_calls queue_one w1)) \<and>
   (\<exists>w'. ib_wqueue_wait queue_one = Some (65, w') \<and>
      new_calls queue_one w' = wait_removal (Node 65) [] 1 \<and>
      resets_follow_removal (new_calls queue_one w')) \<and>
   (\<exists>w2. ib_wqueue_timedwait 50 queue_drained = Some (NULL, w2) \<and>
      new_calls queue_drained w2 = timedwait_round 50 1 OS_SYNC_TIME_EXCEEDED \<and>
      resets_guarded (new_calls queue_drained w2)) \<and>
   (\<exists>w3. ib_wqueue_nowait queue_drained = Some (NULL, w3) \<and>
      new_calls queue_drained w3 =
        [Mutex_lock, List_is_empty True, List_is_empty True, Event_reset 1, Mutex_unlock] \<and>
      resets_guarded (new_calls queue_drained w3))"
proof -
  let ?w' = "queue_one\<lparr>wq := (wq queue_one)\<lparr>items := [],
                event := event_reset (event (wq queue_one))\<rparr>,
              calls := calls queue_one @ wait_removal (Node 65) [] 1\<rparr>"
  have h: "\<not> mutex (wq queue_one)" "\<not> mutex (wq queue_drained)"
    by (simp_all add: queue_one_def queue_drained_def)
  have e: "ib_wqueue_wait queue_one = Some (65, ?w')"
    by (simp add: ib_wqueue_wait_ready [where n = "Node 65" and ns = "[]"] queue_one_def)
  have d: "ib_wqueue_timedwait 50 queue_drained =
      Some (NULL, queue_drained\<lparr>wq := (wq queue_drained)\<lparr>event :=
                      event_reset (event (wq queue_drained))\<rparr>,
                   calls := calls queue_drained @
                     timedwait_round 50 (signal_count (event (wq queue_drained)))
                       OS_SYNC_TIME_EXCEEDED\<rparr>)"
    by (rule ib_wqueue_timedwait_Nil_alone) (simp_all add: queue_drained_def)
  have s: "signal_count (event (wq queue_drained)) = 1" "items (wq queue_drained) = []"
    by (simp_all add: queue_drained_def)
  from event_reset_only_after_list_seen_empty
    [where w = queue_one and wq_locked = False and item = 66 and r = 65 and w' = ?w']
    event_reset_only_after_list_seen_empty [where w = queue_drained and t = 50]
  show ?thesis
    using h e unfolding d
    by (simp add: ib_wqueue_add_eq ib_wqueue_nowait_Nil s)
qed

subsection \<open>First in, first out\<close>

text \<open>
  C4. A thread alone with an empty queue pushes the items \<open>ps\<close> one after the other and
  then takes items, each time with any of \<^verbatim>\<open>ib_wqueue_wait\<close>,
  \<^verbatim>\<open>ib_wqueue_timedwait\<close> and \<^verbatim>\<open>ib_wqueue_nowait\<close>. As long as it takes no more items
  than it has pushed, every call returns, and the items come back in the order they were
  pushed: as many calls as pushes return exactly \<open>ps\<close>.
\<close>

theorem pops_return_items_in_push_order:
  assumes "\<not> mutex (wq w)" and "env w = []" and "items (wq w) = []"
    and "length ks \<le> length ps"
  shows "\<exists>w1 w2. pushes ps w = Some w1 \<and> pops ks w1 = Some (take (length ks) ps, w2)"
proof -
  from pushes_result [OF assms(1), of ps] assms(2,3) obtain w1 where
    w1: "pushes ps w = Some w1" "items (wq w1) = map Node ps" "\<not> mutex (wq w1)" "env w1 = []"
      "ps \<noteq> [] \<longrightarrow> is_set (event (wq w1))"
    by auto
  from pops_result [OF w1(3,4,2,5) assms(4)] w1(1) show ?thesis
    by auto
qed

theorem pops_return_items_in_push_order_witness:
  "\<not> mutex (wq queue_fresh) \<and> env queue_fresh = [] \<and> items (wq queue_fresh) = [] \<and>
   (\<exists>w1 w2. pushes [65, 66, 67, 68] queue_fresh = Some w1 \<and>
      pops [Timedwait 50, Wait, Nowait, Wait] w1 = Some ([65, 66, 67, 68], w2))"
proof -
  have h: "\<not> mutex (wq queue_fresh)" "env queue_fresh = []" "items (wq queue_fresh) = []"
    by (simp_all add: queue_fresh_def ib_wqueue_create_def)
  have l: "length [Timedwait 50, Wait, Nowait, Wait] \<le> length [65, 66, 67, 68 :: ptr]"
    by simp
  from pops_return_items_in_push_order [OF h l] show ?thesis
    using h by simp
qed

subsection \<open>No item is handed out twice\<close>

text \<open>
  C8. Producers and any number of consumers call the queue in any order, the consumers
  with any of the three functions that take an item. Then the items handed out so far,
  followed by those still in the list, are exactly the items that were in the list at
  the start followed by those pushed, in that order: no item is handed out twice and
  none is lost. On a queue that starts and ends empty, as many calls have handed out an
  item as items were pushed, and the items handed out are the items pushed, each to one
  consumer. And from the view that any schedule on an empty queue has left, as many
  further calls as items are left, by any consumers and of any of the three kinds, all
  return an item and leave the list empty: then exactly the pushed items have been
  handed out.
\<close>

theorem every_pushed_item_delivered_once:
  "(env w = [] \<and> run_schedule ss w = Some (ds, w') \<longrightarrow>
      map snd ds @ map data (items (wq w')) = map data (items (wq w)) @ pushed ss \<and>
      (items (wq w) = [] \<and> items (wq w') = [] \<longrightarrow>
         map snd ds = pushed ss \<and> length ds = length (pushed ss))) \<and>
   (\<not> mutex (wq w) \<and> env w = [] \<and> items (wq w) = [] \<and>
    run_schedule ss w = Some (ds, w') \<and> length ks = length (items (wq w')) \<longrightarrow>
      (\<exists>ds' w''. run_schedule (map (\<lambda>(i, k). Pop i k) ks) w' = Some (ds', w'') \<and>
         items (wq w'') = [] \<and> map fst ds' = map fst ks \<and>
         map snd (ds @ ds') = pushed ss \<and> length (ds @ ds') = length (pushed ss)))"
proof -
  have p1: "env w = [] \<and> run_schedule ss w = Some (ds, w') \<longrightarrow>
      map snd ds @ map data (items (wq w')) = map data (items (wq w)) @ pushed ss \<and>
      (items (wq w) = [] \<and> items (wq w') = [] \<longrightarrow>
         map snd ds = pushed ss \<and> length ds = length (pushed ss))"
  proof
    assume "env w = [] \<and> run_schedule ss w = Some (ds, w')"
    then have c: "map snd ds @ map data (items (wq w')) = map data (items (wq w)) @ pushed ss"
      by (simp add: run_schedule_conserves)
    then have "items (wq w) = [] \<and> items (wq w') = [] \<longrightarrow> map snd ds = pushed ss"
      by auto
    moreover have "map snd ds = pushed ss \<longrightarrow> length ds = length (pushed ss)"
      by (metis length_map)
    ultimately show "map snd ds @ map data (items (wq w')) = map data (items (wq w)) @ pushed ss \<and>
      (items (wq w) = [] \<and> items (wq w') = [] \<longrightarrow>
         map snd ds = pushed ss \<and> length ds = length (pushed ss))"
      using c by blast
  qed
  have p2: "\<not> mutex (wq w) \<and> env w = [] \<and> items (wq w) = [] \<and>
    run_schedule ss w = Some (ds, w') \<and> length ks = length (items (wq w')) \<longrightarrow>
      (\<exists>ds' w''. run_schedule (map (\<lambda>(i, k). Pop i k) ks) w' = Some (ds', w'') \<and>
         items (wq w'') = [] \<and> map fst ds' = map fst ks \<and>
         map snd (ds @ ds') = pushed ss \<and> length (ds @ ds') = length (pushed ss))"
  proof
    assume a: "\<not> mutex (wq w) \<and> env w = [] \<and> items (wq w) = [] \<and>
      run_schedule ss w = Some (ds, w') \<and> length ks = length (items (wq w'))"
    then have c: "map snd ds @ map data (items (wq w')) = pushed ss"
      using run_schedule_conserves [of w ss ds w'] by simp
    from a run_schedule_keeps_event [of w ss ds w']
    have i: "env w' = []" "\<not> mutex (wq w')" "items (wq w') \<noteq> [] \<longrightarrow> is_set (event (wq w'))"
      by simp_all
    from a have "length ks = length (items (wq w'))"
      by simp
    from run_schedule_drains [OF i(2,1,3) this] obtain ds' w'' where
      d: "run_schedule (map (\<lambda>(i, k). Pop i k) ks) w' = Some (ds', w'')"
        "map snd ds' = map data (items (wq w'))" "map fst ds' = map fst ks" "items (wq w'') = []"
      by blast
    from c d(2) have "map snd (ds @ ds') = pushed ss"
      by simp
    moreover from this have "length (ds @ ds') = length (pushed ss)"
      by (metis length_map)
    ultimately show "\<exists>ds' w''. run_schedule (map (\<lambda>(i, k). Pop i k) ks) w' = Some (ds', w'') \<and>
         items (wq w'') = [] \<and> map fst ds' = map fst ks \<and>
         map snd (ds @ ds') = pushed ss \<and> length (ds @ ds') = length (pushed ss)"
      using d by blast
  qed
  from p1 p2 show ?thesis
    by (intro conjI)
qed

theorem every_pushed_item_delivered_once_witness:
  "env queue_fresh = [] \<and> \<not> mutex (wq queue_fresh) \<and> items (wq queue_fresh) = [] \<and>
   pushed schedule_two_consumers = [65, 66, 67] \<and>
   (\<exists>w'. run_schedule schedule_two_consumers queue_fresh =
        Some ([(0, 65), (1, 66), (1, 67)], w') \<and> items (wq w') = []) \<and>
   map snd [(0 :: nat, 65 :: ptr), (1, 66), (1, 67)] = pushed schedule_two_consumers \<and>
   pushed schedule_unfinished = [65, 66, 67] \<and>
   (\<exists>w'. run_schedule schedule_unfinished queue_fresh = Some ([(0, 65)], w') \<and>
      items (wq w') = [Node 66, Node 67] \<and>
      (\<exists>ds' w''. run_schedule [Pop 1 Wait, Pop 2 Nowait] w' = Some (ds', w'') \<and>
         items (wq w'') = [] \<and> map fst ds' = [1, 2] \<and>
         map snd ([(0, 65)] @ ds') = [65, 66, 67]))"
proof -
  have h: "env queue_fresh = []" "\<not> mutex (wq queue_fresh)" "items (wq queue_fresh) = []"
    by (simp_all add: queue_fresh_def ib_wqueue_create_def)
  have p: "pushed schedule_two_consumers = [65, 66, 67]"
    "pushed schedule_unfinished = [65, 66, 67]"
    by (simp_all add: schedule_two_consumers_def schedule_unfinished_def)
  have "map_option (\<lambda>(ds, w'). (ds, items (wq w')))
      (run_schedule schedule_two_consumers queue_fresh) =
      Some ([(0, 65), (1, 66), (1, 67)], [])"
    by code_simp
  then obtain w1 where
    e1: "run_schedule schedule_two_consumers queue_fresh = Some ([(0, 65), (1, 66), (1, 67)], w1)"
    and i1: "items (wq w1) = []"
    by auto
  have "map_option (\<lambda>(ds, w'). (ds, items (wq w')))
      (run_schedule schedule_unfinished queue_fresh) =
      Some ([(0, 65)], [Node 66, Node 67])"
    by code_simp
  then obtain w2 where
    e2: "run_schedule schedule_unfinished queue_fresh = Some ([(0, 65)], w2)"
    and i2: "items (wq w2) = [Node 66, Node 67]"
    by auto
  note t1 = every_pushed_item_delivered_once
    [where w = queue_fresh and ss = schedule_two_consumers
       and ds = "[(0, 65), (1, 66), (1, 67)]" and w' = w1]
  note t2 = every_pushed_item_delivered_once
    [where w = queue_fresh and ss = schedule_unfinished and ds = "[(0, 65)]" and w' = w2
       and ks = "[(1, Wait), (2, Nowait)]"]
  from t1 h e1 i1 have a: "map snd [(0 :: nat, 65 :: ptr), (1, 66), (1, 67)] =
      pushed schedule_two_consumers"
    by blast
  from i2 have "length [(1 :: nat, Wait), (2, Nowait)] = length (items (wq w2))"
    by simp
  with t2 h e2 have "\<exists>ds' w''.
      run_schedule (map (\<lambda>(i, k). Pop i k) [(1, Wait), (2, Nowait)]) w2 = Some (ds', w'') \<and>
      items (wq w'') = [] \<and> map fst ds' = map fst [(1 :: nat, Wait), (2, Nowait)] \<and>
      map snd ([(0, 65)] @ ds') = pushed schedule_unfinished \<and>
      length ([(0, 65)] @ ds') = length (pushed schedule_unfinished)"
    by blast
  then obtain ds' w'' where
    d: "run_schedule (map (\<lambda>(i, k). Pop i k) [(1, Wait), (2, Nowait)]) w2 = Some (ds', w'')"
      "items (wq w'') = []" "map fst ds' = map fst [(1 :: nat, Wait), (2, Nowait)]"
      "map snd ([(0, 65)] @ ds') = pushed schedule_unfinished"
    by blast
  have m: "map (\<lambda>(i, k). Pop i k) [(1, Wait), (2, Nowait)] = [Pop 1 Wait, Pop 2 Nowait]"
    by simp
  from d p have b: "\<exists>ds' w''. run_schedule [Pop 1 Wait, Pop 2 Nowait] w2 = Some (ds', w'') \<and>
      items (wq w'') = [] \<and> map fst ds' = [1, 2] \<and>
      map snd ([(0, 65)] @ ds') = [65, 66, 67]"
    unfolding m by (intro exI [of _ ds'] exI [of _ w'']) (simp del: run_schedule.simps)
  from e1 i1 have x: "\<exists>w'. run_schedule schedule_two_consumers queue_fresh =
        Some ([(0, 65), (1, 66), (1, 67)], w') \<and> items (wq w') = []"
    by (intro exI [of _ w1] conjI)
  from e2 i2 b have y: "\<exists>w'. run_schedule schedule_unfinished queue_fresh = Some ([(0, 65)], w') \<and>
      items (wq w') = [Node 66, Node 67] \<and>
      (\<exists>ds' w''. run_schedule [Pop 1 Wait, Pop 2 Nowait] w' = Some (ds', w'') \<and>
         items (wq w'') = [] \<and> map fst ds' = [1, 2] \<and>
         map snd ([(0, 65)] @ ds') = [65, 66, 67])"
    by (intro exI [of _ w2] conjI)
  from h p(1) x a p(2) y show ?thesis
    by (intro conjI)
qed

end
